theory Spec2Isabelle
  imports Main "HOL-Library.AList" "HOL-Library.Char_ord" "HOL-Library.List_Lexorder"
begin

section \<open>Data model\<close>

text \<open>
  The plugin manager of \<^verbatim>\<open>napari_plugin_engine/manager.py\<close>. Python objects are
  identified by a natural number (their \<^verbatim>\<open>id\<close>): the manager's tables are keyed by
  object identity. Call arguments are keyword dictionaries with integer values.
\<close>

type_synonym kwargs = "(string \<times> int) list"

datatype priority = TryFirst | Neutral | TryLast

datatype validation_reason =
    HistoricHookwrapper
  | NotInSpec "string set"
  | UnknownHook

text \<open>
  The exceptions the manager raises. \<open>NameAlreadyRegistered\<close>, \<open>ModuleAlreadyRegistered\<close>,
  \<open>InvalidIdentifiers\<close> and \<open>NoHooksFound\<close> are the four \<^verbatim>\<open>ValueError\<close>s of the file,
  told apart by their message. \<open>PluginValidationError\<close> carries the implementation's
  plugin object, its plugin name, the hook name and the reason.
\<close>

datatype error =
    TypeError
  | NameAlreadyRegistered string
  | ModuleAlreadyRegistered nat
  | InvalidIdentifiers "string list"
  | NoHooksFound
  | KeyError
  | AttributeError
  | AssertionError
  | HookCallError string
  | CallError string
  | PluginImportError "string option" error
  | PluginRegistrationError "string option" "error option"
  | PluginValidationError nat "string option" string validation_reason

text \<open>
  \<^verbatim>\<open>except PluginError\<close>. Modelled from the spec: the exception classes
  (exceptions.py is not among the sources). The import, registration and validation
  errors that this file raises are plugin errors, and so is the argument mismatch of a
  hook call.
\<close>

fun is_plugin_error :: "error \<Rightarrow> bool" where
  "is_plugin_error (PluginImportError n c) = True"
| "is_plugin_error (HookCallError a) = True"
| "is_plugin_error (PluginRegistrationError n c) = True"
| "is_plugin_error (PluginValidationError p n h r) = True"
| "is_plugin_error e = False"

fun is_validation_error :: "error \<Rightarrow> bool" where
  "is_validation_error (PluginValidationError p n h r) = True"
| "is_validation_error e = False"

text \<open>The options a marker attaches to a callable (the marker protocol).\<close>

record impl_opts =
  opt_hookwrapper :: bool
  opt_optionalhook :: bool
  opt_priority :: priority
  opt_specname :: "string option"

record spec_opts =
  opt_historic :: bool
  opt_firstresult :: bool
  opt_warn_on_impl :: "string option"

text \<open>
  One attribute of a namespace, as \<^verbatim>\<open>getattr(namespace, name)\<close> returns it: whether it
  is a routine (\<^verbatim>\<open>inspect.isroutine\<close>), whether it is a plain function
  (\<^verbatim>\<open>inspect.isfunction\<close>), its \<^verbatim>\<open>__name__\<close>, its parameter names, what calling it
  returns, and the marker attributes \<^verbatim>\<open><project>_impl\<close> and \<^verbatim>\<open><project>_spec\<close>.
\<close>

record attribute =
  attr_isroutine :: bool
  attr_isfunction :: bool
  attr_funcname :: string
  attr_argnames :: "string list"
  attr_function :: "kwargs \<Rightarrow> error + int option"
  attr_impl :: "impl_opts option"
  attr_spec :: "spec_opts option"

text \<open>
  A namespace object: its identity, its \<^verbatim>\<open>__name__\<close> when it has one, whether it is
  hashable (a dict key must be), whether it is a class or a module, and its attributes
  in the order of \<^verbatim>\<open>dir\<close>.
\<close>

record pyobject =
  obj_id :: nat
  obj_name :: "string option"
  obj_hashable :: bool
  obj_is_class_or_module :: bool
  obj_dir :: "(string \<times> attribute) list"

text \<open>
  What \<^verbatim>\<open>register\<close> can be handed: a string, a dict (with the identity that the class
  built from it by \<^verbatim>\<open>ensure_namespace\<close> receives), or any other object.
\<close>

datatype namespace =
    StrNS string
  | DictNS nat "(string \<times> attribute) list"
  | ObjNS pyobject

record hookimpl =
  impl_function :: "kwargs \<Rightarrow> error + int option"
  impl_plugin :: nat
  impl_plugin_name :: "string option"
  impl_argnames :: "string list"
  impl_hookwrapper :: bool
  impl_optionalhook :: bool
  impl_priority :: priority
  impl_specname :: string

record hookspec =
  spec_argnames :: "string list"
  spec_historic :: bool
  spec_firstresult :: bool
  spec_warn_on_impl :: "string option"

record hook_caller =
  hc_name :: string
  hc_spec :: "hookspec option"
  hc_hookimpls :: "hookimpl list"
  hc_call_history :: "(kwargs \<times> nat option) list"

datatype warning =
    NoPluginFound
  | DiscoveryDisabled
  | WarnOnImpl string

text \<open>
  The manager. \<open>plugins\<close> and \<open>plugin2hookcallers\<close> are the two dicts of
  \<^verbatim>\<open>__init__\<close>, in insertion order; a plugin's hook callers are kept by hook name, since
  the relay holds one caller per name and never drops or replaces it. \<open>hook\<close> is the
  relay's \<^verbatim>\<open>__dict__\<close> without its two private attributes, \<open>needs_discovery\<close> the
  relay's flag. \<open>emitted\<close> collects the warnings, \<open>callback_out\<close> the results handed to
  the callbacks of historic calls.
\<close>

record manager =
  discover_entry_point :: string
  discover_prefix :: string
  plugins :: "(string \<times> nat) list"
  plugin2hookcallers :: "(nat \<times> string list) list"
  blocked :: "string set"
  hook :: "(string \<times> hook_caller) list"
  needs_discovery :: bool
  emitted :: "warning list"
  callback_out :: "(nat \<times> int) list"

definition init_manager :: "string \<Rightarrow> string \<Rightarrow> manager" where
  "init_manager entry_point prefix =
     \<lparr>discover_entry_point = entry_point, discover_prefix = prefix, plugins = [],
      plugin2hookcallers = [], blocked = {}, hook = [], needs_discovery = True,
      emitted = [], callback_out = []\<rparr>"

section \<open>Hook implementations and hook callers\<close>

text \<open>
  Modelled from the spec: the class \<^verbatim>\<open>HookImplementation\<close> (implementation.py is not
  among the sources). An implementation records its owning plugin, the hook name it
  targets (the marker's specname override, else the callable's own name), the callable's
  parameter names and the marker's flags.
\<close>

definition HookImplementation :: "attribute \<Rightarrow> nat \<Rightarrow> impl_opts \<Rightarrow> hookimpl" where
  "HookImplementation method plugin opts =
     \<lparr>impl_function = attr_function method, impl_plugin = plugin, impl_plugin_name = None,
      impl_argnames = attr_argnames method, impl_hookwrapper = opt_hookwrapper opts,
      impl_optionalhook = opt_optionalhook opts, impl_priority = opt_priority opts,
      impl_specname = (case opt_specname opts of
                         None \<Rightarrow> attr_funcname method
                       | Some n \<Rightarrow> if n = [] then attr_funcname method else n)\<rparr>"

text \<open>
  Modelled from the spec: the class \<^verbatim>\<open>HookCaller\<close> (hooks.py is not among the
  sources). A caller is created with or without a specification; binding a
  specification reads the parameter names of the declaring callable and the marker's
  flags. A specification is immutable once bound, so binding a second one fails.
\<close>

definition HookSpecification :: "attribute \<Rightarrow> spec_opts \<Rightarrow> hookspec" where
  "HookSpecification method opts =
     \<lparr>spec_argnames = attr_argnames method, spec_historic = opt_historic opts,
      spec_firstresult = opt_firstresult opts, spec_warn_on_impl = opt_warn_on_impl opts\<rparr>"

definition has_spec :: "hook_caller \<Rightarrow> bool" where
  "has_spec hc = (hc_spec hc \<noteq> None)"

definition is_historic :: "hook_caller \<Rightarrow> bool" where
  "is_historic hc = (case hc_spec hc of None \<Rightarrow> False | Some sp \<Rightarrow> spec_historic sp)"

definition set_specification :: "hook_caller \<Rightarrow> attribute \<Rightarrow> spec_opts \<Rightarrow> error + hook_caller" where
  "set_specification hc method opts =
     (if has_spec hc then Inl AssertionError
      else Inr (hc\<lparr>hc_spec := Some (HookSpecification method opts)\<rparr>))"

definition new_hook_caller :: "string \<Rightarrow> hook_caller" where
  "new_hook_caller name = \<lparr>hc_name = name, hc_spec = None, hc_hookimpls = [], hc_call_history = []\<rparr>"

definition new_hook_caller_spec :: "string \<Rightarrow> attribute \<Rightarrow> spec_opts \<Rightarrow> hook_caller" where
  "new_hook_caller_spec name method opts =
     (new_hook_caller name)\<lparr>hc_spec := Some (HookSpecification method opts)\<rparr>"

definition get_hookimpls :: "hook_caller \<Rightarrow> hookimpl list" where
  "get_hookimpls hc = hc_hookimpls hc"

text \<open>
  Modelled from the spec: \<^verbatim>\<open>HookCaller._add_hookimpl\<close>. The list is kept in dispatch
  order: the try-first group, the neutral group, the try-last group, each with its
  latest registration first.
\<close>

definition insert_hookimpl :: "hookimpl \<Rightarrow> hookimpl list \<Rightarrow> hookimpl list" where
  "insert_hookimpl h hs =
     (case impl_priority h of
        TryFirst \<Rightarrow> h # hs
      | Neutral \<Rightarrow> takeWhile (\<lambda>x. impl_priority x = TryFirst) hs @ h #
                   dropWhile (\<lambda>x. impl_priority x = TryFirst) hs
      | TryLast \<Rightarrow> takeWhile (\<lambda>x. impl_priority x \<noteq> TryLast) hs @ h #
                   dropWhile (\<lambda>x. impl_priority x \<noteq> TryLast) hs)"

definition add_hookimpl :: "hook_caller \<Rightarrow> hookimpl \<Rightarrow> hook_caller" where
  "add_hookimpl hc h = hc\<lparr>hc_hookimpls := insert_hookimpl h (hc_hookimpls hc)\<rparr>"

text \<open>
  Modelled from the spec: \<^verbatim>\<open>HookCaller._remove_plugin\<close> removes exactly the plugin's
  own implementations and leaves the order of the others.
\<close>

definition remove_plugin :: "hook_caller \<Rightarrow> nat \<Rightarrow> hook_caller" where
  "remove_plugin hc plugin = hc\<lparr>hc_hookimpls := filter (\<lambda>h. impl_plugin h \<noteq> plugin) (hc_hookimpls hc)\<rparr>"

text \<open>
  Modelled from the spec: one implementation called with the arguments of one call
  (the inner loop of the dispatch, for a single implementation). The arguments are
  projected to the implementation's parameters; a parameter the call did not supply
  is an argument mismatch.
\<close>

definition call_hookimpl :: "hookimpl \<Rightarrow> kwargs \<Rightarrow> error + int option" where
  "call_hookimpl h kw =
     (case filter (\<lambda>a. map_of kw a = None) (impl_argnames h) of
        a # _ \<Rightarrow> Inl (HookCallError a)
      | [] \<Rightarrow> impl_function h
                (List.map_filter (\<lambda>a. map_option (Pair a) (map_of kw a)) (impl_argnames h)))"

text \<open>
  Modelled from the spec: \<^verbatim>\<open>HookCaller._maybe_apply_history\<close>. A historic caller
  replays every entry of its log through the new implementation and hands each
  non-null result to the entry's callback, when it has one.
\<close>

fun apply_history :: "hookimpl \<Rightarrow> (kwargs \<times> nat option) list \<Rightarrow> (nat \<times> int) list \<Rightarrow>
    (nat \<times> int) list \<times> (error + unit)" where
  "apply_history h [] out = (out, Inr ())"
| "apply_history h ((kw, cb) # rest) out =
     (case call_hookimpl h kw of
        Inl e \<Rightarrow> (out, Inl e)
      | Inr res \<Rightarrow>
          apply_history h rest
            (case (res, cb) of (Some v, Some c) \<Rightarrow> out @ [(c, v)] | _ \<Rightarrow> out))"

definition maybe_apply_history :: "manager \<Rightarrow> hook_caller \<Rightarrow> hookimpl \<Rightarrow> manager \<times> (error + unit)" where
  "maybe_apply_history s hc h =
     (if is_historic hc then
        (case apply_history h (hc_call_history hc) (callback_out s) of
           (out, r) \<Rightarrow> (s\<lparr>callback_out := out\<rparr>, r))
      else (s, Inr ()))"

section \<open>The manager: names, lookups, validation\<close>

text \<open>\<^verbatim>\<open>str(id(namespace))\<close>: the decimal digits of the identity.\<close>

fun str_nat :: "nat \<Rightarrow> string" where
  "str_nat n = (if n < 10 then [char_of (48 + n)]
                else str_nat (n div 10) @ [char_of (48 + n mod 10)])"

definition get_canonical_name :: "pyobject \<Rightarrow> string" where
  "get_canonical_name namespace =
     (case obj_name namespace of
        None \<Rightarrow> str_nat (obj_id namespace)
      | Some n \<Rightarrow> if n = [] then str_nat (obj_id namespace) else n)"

text \<open>
  \<^verbatim>\<open>is_registered\<close> looks a string up among the plugin names and any other object among
  the keys of \<open>plugin2hookcallers\<close>.
\<close>

definition is_registered_name :: "manager \<Rightarrow> string \<Rightarrow> bool" where
  "is_registered_name s name = (map_of (plugins s) name \<noteq> None)"

definition is_registered_object :: "manager \<Rightarrow> nat \<Rightarrow> bool" where
  "is_registered_object s plugin = (map_of (plugin2hookcallers s) plugin \<noteq> None)"

definition is_blocked :: "manager \<Rightarrow> string \<Rightarrow> bool" where
  "is_blocked s plugin_name = (plugin_name \<in> blocked s)"

definition get_name :: "manager \<Rightarrow> nat \<Rightarrow> string option" where
  "get_name s plugin = map_option fst (find (\<lambda>(name, val). plugin = val) (plugins s))"

datatype name_or_object = ByName string | ByObject nat

definition ensure_plugin :: "manager \<Rightarrow> name_or_object \<Rightarrow> error + nat" where
  "ensure_plugin s name_or_object =
     (case (case name_or_object of ByName n \<Rightarrow> Some n | ByObject p \<Rightarrow> get_name s p) of
        None \<Rightarrow> Inl KeyError
      | Some plugin_name \<Rightarrow>
          (case map_of (plugins s) plugin_name of
             Some plugin \<Rightarrow> Inr plugin
           | None \<Rightarrow> Inl KeyError))"

text \<open>
  A hook caller lives in the relay under its hook name; a method that mutates the
  caller is a replacement of the entry under that name.
\<close>

definition set_hook :: "manager \<Rightarrow> string \<Rightarrow> hook_caller \<Rightarrow> manager" where
  "set_hook s name hc = s\<lparr>hook := AList.update name hc (hook s)\<rparr>"

definition remove_plugin_at :: "nat \<Rightarrow> string \<Rightarrow> manager \<Rightarrow> manager" where
  "remove_plugin_at plugin name s =
     (case map_of (hook s) name of
        None \<Rightarrow> s
      | Some hc \<Rightarrow> set_hook s name (remove_plugin hc plugin))"

text \<open>
  \<^verbatim>\<open>unregister\<close>. The name deleted from \<open>plugins\<close> is \<^verbatim>\<open>get_name(plugin)\<close>, the first
  name the object is registered under; it exists, since the object was just read from
  the table.
\<close>

definition unregister :: "manager \<Rightarrow> name_or_object \<Rightarrow> manager \<times> nat option" where
  "unregister s name_or_object =
     (case ensure_plugin s name_or_object of
        Inl e \<Rightarrow> (s\<lparr>emitted := emitted s @ [NoPluginFound]\<rparr>, None)
      | Inr plugin \<Rightarrow>
          (let s1 = s\<lparr>plugins := (case get_name s plugin of
                                     None \<Rightarrow> plugins s
                                   | Some n \<Rightarrow> AList.delete n (plugins s))\<rparr>;
               hookcallers = (case map_of (plugin2hookcallers s1) plugin of
                                None \<Rightarrow> []
                              | Some l \<Rightarrow> l);
               s2 = s1\<lparr>plugin2hookcallers := AList.delete plugin (plugin2hookcallers s1)\<rparr>
           in (fold (remove_plugin_at plugin) hookcallers s2, Some plugin)))"

definition set_blocked :: "manager \<Rightarrow> string \<Rightarrow> bool \<Rightarrow> manager" where
  "set_blocked s plugin_name blk =
     (if blk then
        (let s1 = s\<lparr>blocked := insert plugin_name (blocked s)\<rparr>
         in if is_registered_name s1 plugin_name then fst (unregister s1 (ByName plugin_name))
            else s1)
      else if plugin_name \<in> blocked s then s\<lparr>blocked := blocked s - {plugin_name}\<rparr>
      else s)"

text \<open>\<^verbatim>\<open>_verify_hook\<close>: the checks in the order of the source.\<close>

definition verify_hook :: "manager \<Rightarrow> hook_caller \<Rightarrow> hookimpl \<Rightarrow> manager \<times> (error + unit)" where
  "verify_hook s hook_caller hookimpl =
     (if is_historic hook_caller \<and> impl_hookwrapper hookimpl then
        (s, Inl (PluginValidationError (impl_plugin hookimpl) (impl_plugin_name hookimpl)
                   (hc_name hook_caller) HistoricHookwrapper))
      else
        (case hc_spec hook_caller of
           None \<Rightarrow> (s, Inr ())
         | Some sp \<Rightarrow>
             (let s1 = (case spec_warn_on_impl sp of
                          None \<Rightarrow> s
                        | Some w \<Rightarrow> if w = [] then s else s\<lparr>emitted := emitted s @ [WarnOnImpl w]\<rparr>);
                  notinspec = set (impl_argnames hookimpl) - set (spec_argnames sp)
              in if notinspec \<noteq> {} then
                   (s1, Inl (PluginValidationError (impl_plugin hookimpl) (impl_plugin_name hookimpl)
                               (hc_name hook_caller) (NotInSpec notinspec)))
                 else (s1, Inr ()))))"

section \<open>The hook relay\<close>

text \<open>
  \<^verbatim>\<open>_HookRelay.__getattribute__\<close>. The manager's \<^verbatim>\<open>discover()\<close>, which the relay
  calls, registers plugins, and registration reads the relay again: the operations
  below take that call as the argument \<open>d\<close>, a function that returns the manager after
  the pass (with the exception the pass raised, if any), or \<open>None\<close> when the pass does
  not return. Section "Discovery" defines the pass and closes the recursion.
\<close>

type_synonym discover_fn = "manager \<Rightarrow> (manager \<times> (error + unit)) option"

definition relay_trigger :: "discover_fn \<Rightarrow> manager \<Rightarrow> string \<Rightarrow> (manager \<times> (error + unit)) option" where
  "relay_trigger d s name =
     (if name \<notin> {''_needs_discovery'', ''_manager''} \<and> needs_discovery s then d s
      else Some (s, Inr ()))"

text \<open>
  What \<^verbatim>\<open>object.__getattribute__(self, name)\<close> finds on the relay: nothing, a hook
  caller that was stored under the name, or something else. The data descriptors of the
  class come first, then the instance's \<^verbatim>\<open>__dict__\<close> (the hook callers, and the two
  private attributes, which \<open>hook\<close> leaves out), then the other attributes of the class
  and of \<^verbatim>\<open>object\<close> (as CPython 3.11 lists them).
\<close>

datatype relay_value = Absent | Caller hook_caller | Other

definition relay_slots :: "string list" where
  "relay_slots = [''__class__'', ''__dict__'', ''__weakref__'']"

definition relay_attributes :: "string list" where
  "relay_attributes =
     [''_needs_discovery'', ''_manager'', ''items'', ''values'',
      ''__delattr__'', ''__dir__'', ''__doc__'', ''__eq__'', ''__format__'', ''__ge__'',
      ''__getattribute__'', ''__getstate__'', ''__gt__'', ''__hash__'', ''__init__'',
      ''__init_subclass__'', ''__le__'', ''__lt__'', ''__module__'', ''__ne__'', ''__new__'',
      ''__reduce__'', ''__reduce_ex__'', ''__repr__'', ''__setattr__'', ''__sizeof__'',
      ''__str__'', ''__subclasshook__'']"

definition relay_lookup :: "manager \<Rightarrow> string \<Rightarrow> relay_value" where
  "relay_lookup s name =
     (if name \<in> set relay_slots then Other
      else (case map_of (hook s) name of
              Some hook_caller \<Rightarrow> Caller hook_caller
            | None \<Rightarrow> if name \<in> set relay_attributes then Other else Absent))"

definition relay_getattr :: "discover_fn \<Rightarrow> manager \<Rightarrow> string \<Rightarrow>
    (manager \<times> (error + relay_value)) option" where
  "relay_getattr d s name =
     (case relay_trigger d s name of
        None \<Rightarrow> None
      | Some (s1, Inl e) \<Rightarrow> Some (s1, Inl e)
      | Some (s1, Inr u) \<Rightarrow> Some (s1, Inr (relay_lookup s1 name)))"

section \<open>Registration\<close>

definition iter_implementations :: "pyobject \<Rightarrow> hookimpl list" where
  "iter_implementations namespace =
     List.map_filter
       (\<lambda>(name, method).
          if \<not> attr_isroutine method then None
          else (case attr_impl method of
                  None \<Rightarrow> None
                | Some hookimpl_opts \<Rightarrow>
                    Some (HookImplementation method (obj_id namespace) hookimpl_opts)))
       (obj_dir namespace)"

text \<open>
  The body of the loop of \<^verbatim>\<open>register\<close>, for one implementation: the caller is looked
  up through the relay, then the implementation is validated, replayed and attached.
  When the relay returns something that is not a hook caller, calling \<^verbatim>\<open>has_spec\<close> on
  it raises \<^verbatim>\<open>AttributeError\<close>.
\<close>

definition attach_hookimpl :: "manager \<Rightarrow> hookimpl \<Rightarrow> relay_value \<Rightarrow> manager \<times> (error + string)" where
  "attach_hookimpl s1 hookimpl found =
     (let specname = impl_specname hookimpl
      in case found of
           Absent \<Rightarrow>
             (set_hook s1 specname (add_hookimpl (new_hook_caller specname) hookimpl), Inr specname)
         | Other \<Rightarrow> (s1, Inl AttributeError)
         | Caller hook_caller \<Rightarrow>
             if has_spec hook_caller then
               (case verify_hook s1 hook_caller hookimpl of
                  (s2, Inl e) \<Rightarrow> (s2, Inl e)
                | (s2, Inr u) \<Rightarrow>
                    (case maybe_apply_history s2 hook_caller hookimpl of
                       (s3, Inl e) \<Rightarrow> (s3, Inl e)
                     | (s3, Inr v) \<Rightarrow>
                         (set_hook s3 specname (add_hookimpl hook_caller hookimpl), Inr specname)))
             else (set_hook s1 specname (add_hookimpl hook_caller hookimpl), Inr specname))"

definition register_hookimpl :: "discover_fn \<Rightarrow> string \<Rightarrow> manager \<Rightarrow> hookimpl \<Rightarrow>
    (manager \<times> (error + string)) option" where
  "register_hookimpl d plugin_name s hookimpl0 =
     (let hookimpl = hookimpl0\<lparr>impl_plugin_name := Some plugin_name\<rparr>
      in case relay_getattr d s (impl_specname hookimpl) of
           None \<Rightarrow> None
         | Some (s1, Inl e) \<Rightarrow> Some (s1, Inl e)
         | Some (s1, Inr found) \<Rightarrow> Some (attach_hookimpl s1 hookimpl found))"

fun register_impls :: "discover_fn \<Rightarrow> string \<Rightarrow> manager \<Rightarrow> hookimpl list \<Rightarrow> string list \<Rightarrow>
    (manager \<times> (error + string list)) option" where
  "register_impls d plugin_name s [] hookcallers = Some (s, Inr hookcallers)"
| "register_impls d plugin_name s (hookimpl # rest) hookcallers =
     (case register_hookimpl d plugin_name s hookimpl of
        None \<Rightarrow> None
      | Some (s1, Inl e) \<Rightarrow> Some (s1, Inl e)
      | Some (s1, Inr hook_caller) \<Rightarrow>
          register_impls d plugin_name s1 rest (hookcallers @ [hook_caller]))"

text \<open>\<^verbatim>\<open>name or get_canonical_name(namespace)\<close>.\<close>

definition plugin_name_of :: "pyobject \<Rightarrow> string option \<Rightarrow> string" where
  "plugin_name_of namespace name =
     (case name of
        None \<Rightarrow> get_canonical_name namespace
      | Some n \<Rightarrow> if n = [] then get_canonical_name namespace else n)"

text \<open>
  \<^verbatim>\<open>register\<close> from the line that computes the plugin name on. The test
  \<^verbatim>\<open>obj in self._plugin2hookcallers\<close> hashes the namespace first, which raises
  \<^verbatim>\<open>TypeError\<close> when it is not hashable.
\<close>

definition register_object :: "discover_fn \<Rightarrow> manager \<Rightarrow> pyobject \<Rightarrow> string option \<Rightarrow>
    (manager \<times> (error + string option)) option" where
  "register_object d s namespace name =
     (let plugin_name = plugin_name_of namespace name
      in if is_blocked s plugin_name then Some (s, Inr None)
         else if is_registered_name s plugin_name then
           Some (s, Inl (NameAlreadyRegistered plugin_name))
         else if \<not> obj_hashable namespace then Some (s, Inl TypeError)
         else if is_registered_object s (obj_id namespace) then
           Some (s, Inl (ModuleAlreadyRegistered (obj_id namespace)))
         else
           (case register_impls d plugin_name s (iter_implementations namespace) [] of
              None \<Rightarrow> None
            | Some (s1, Inl e) \<Rightarrow> Some (s1, Inl e)
            | Some (s1, Inr hookcallers) \<Rightarrow>
                Some (s1\<lparr>plugin2hookcallers :=
                            AList.update (obj_id namespace) hookcallers (plugin2hookcallers s1),
                          plugins := AList.update plugin_name (obj_id namespace) (plugins s1)\<rparr>,
                      Inr (Some plugin_name))))"

text \<open>
  \<^verbatim>\<open>str.isidentifier\<close>. A character of a \<open>string\<close> is a code point below 256. Among
  these the characters that may start an identifier are the underscore, the ASCII
  letters, the two ordinal indicators, the micro sign and the letters from U+00C0 to
  U+00FF (which leaves out the multiplication and the division sign); the characters
  that may continue one are these, the ASCII digits and the middle dot.
\<close>

definition identifier_start :: "char \<Rightarrow> bool" where
  "identifier_start c =
     (c = CHR ''_'' \<or> (CHR ''a'' \<le> c \<and> c \<le> CHR ''z'') \<or> (CHR ''A'' \<le> c \<and> c \<le> CHR ''Z'')
      \<or> c = CHR 0xAA \<or> c = CHR 0xB5 \<or> c = CHR 0xBA
      \<or> (CHR 0xC0 \<le> c \<and> c \<le> CHR 0xD6) \<or> (CHR 0xD8 \<le> c \<and> c \<le> CHR 0xF6) \<or> CHR 0xF8 \<le> c)"

definition identifier_char :: "char \<Rightarrow> bool" where
  "identifier_char c =
     (identifier_start c \<or> (CHR ''0'' \<le> c \<and> c \<le> CHR ''9'') \<or> c = CHR 0xB7)"

definition isidentifier :: "string \<Rightarrow> bool" where
  "isidentifier k =
     (case k of [] \<Rightarrow> False | c # cs \<Rightarrow> identifier_start c \<and> list_all identifier_char cs)"

text \<open>
  \<^verbatim>\<open>ensure_namespace\<close> with its default name: a dict becomes a class named
  \<^verbatim>\<open>orphan\<close> whose attributes are the dict's items (\<^verbatim>\<open>dir\<close> lists them sorted);
  any other object is returned as it is.
\<close>

definition ensure_namespace :: "namespace \<Rightarrow> error + namespace" where
  "ensure_namespace obj =
     (case obj of
        DictNS i dct \<Rightarrow>
          (let bad_keys = filter (\<lambda>k. \<not> isidentifier k) (map fst dct)
           in if bad_keys \<noteq> [] then Inl (InvalidIdentifiers bad_keys)
              else Inr (ObjNS \<lparr>obj_id = i, obj_name = Some ''orphan'', obj_hashable = True,
                               obj_is_class_or_module = True, obj_dir = sort_key fst dct\<rparr>))
      | _ \<Rightarrow> Inr obj)"

text \<open>
  Modelled from the spec: \<^verbatim>\<open>HookImplementationMarker\<close> called with a specname only
  (markers.py is not among the sources) marks the callable as a neutral, non-wrapper,
  non-optional implementation of that hook.
\<close>

definition mark_impl :: "string \<Rightarrow> attribute \<Rightarrow> attribute" where
  "mark_impl key val =
     val\<lparr>attr_impl := Some \<lparr>opt_hookwrapper = False, opt_optionalhook = False,
                             opt_priority = Neutral, opt_specname = Some key\<rparr>\<rparr>"

definition clean_dct :: "(string \<times> attribute) list \<Rightarrow> (string \<times> attribute) list" where
  "clean_dct dct = map (\<lambda>(key, val). (key, mark_impl key val))
                     (filter (\<lambda>(key, val). attr_isfunction val) dct)"

definition register_dict :: "discover_fn \<Rightarrow> manager \<Rightarrow> nat \<Rightarrow> (string \<times> attribute) list \<Rightarrow>
    string option \<Rightarrow> (manager \<times> (error + string option)) option" where
  "register_dict d s i dct name =
     (case ensure_namespace (DictNS i (clean_dct dct)) of
        Inl e \<Rightarrow> Some (s, Inl e)
      | Inr (ObjNS namespace) \<Rightarrow> register_object d s namespace name
      | Inr other \<Rightarrow> Some (s, Inl TypeError))"

definition register :: "discover_fn \<Rightarrow> manager \<Rightarrow> namespace \<Rightarrow> string option \<Rightarrow>
    (manager \<times> (error + string option)) option" where
  "register d s namespace name =
     (case namespace of
        StrNS str \<Rightarrow> Some (s, Inl TypeError)
      | DictNS i dct \<Rightarrow> register_dict d s i dct name
      | ObjNS obj \<Rightarrow> register_object d s obj name)"

section \<open>Declaring specifications\<close>

fun verify_hooks :: "manager \<Rightarrow> hook_caller \<Rightarrow> hookimpl list \<Rightarrow> manager \<times> (error + unit)" where
  "verify_hooks s hook_caller [] = (s, Inr ())"
| "verify_hooks s hook_caller (hookfunction # rest) =
     (case verify_hook s hook_caller hookfunction of
        (s1, Inl e) \<Rightarrow> (s1, Inl e)
      | (s1, Inr u) \<Rightarrow> verify_hooks s1 hook_caller rest)"

text \<open>
  The body of the loop of \<^verbatim>\<open>add_hookspecs\<close>, for one marked specification: the
  caller is looked up through the relay, then created with the specification, or
  bound to it and its implementations verified. When the relay returns something that
  is not a hook caller, calling \<^verbatim>\<open>set_specification\<close> on it raises
  \<^verbatim>\<open>AttributeError\<close>.
\<close>

definition bind_hookspec :: "manager \<Rightarrow> string \<Rightarrow> attribute \<Rightarrow> spec_opts \<Rightarrow> relay_value \<Rightarrow>
    manager \<times> (error + unit)" where
  "bind_hookspec s1 name method opts found =
     (case found of
        Absent \<Rightarrow> (set_hook s1 name (new_hook_caller_spec name method opts), Inr ())
      | Other \<Rightarrow> (s1, Inl AttributeError)
      | Caller hook_caller0 \<Rightarrow>
          (case set_specification hook_caller0 method opts of
             Inl e \<Rightarrow> (s1, Inl e)
           | Inr hook_caller \<Rightarrow>
               verify_hooks (set_hook s1 name hook_caller) hook_caller (get_hookimpls hook_caller)))"

definition add_hookspec :: "discover_fn \<Rightarrow> manager \<Rightarrow> string \<Rightarrow> attribute \<Rightarrow> spec_opts \<Rightarrow>
    (manager \<times> (error + unit)) option" where
  "add_hookspec d s name method opts =
     (case relay_getattr d s name of
        None \<Rightarrow> None
      | Some (s1, Inl e) \<Rightarrow> Some (s1, Inl e)
      | Some (s1, Inr found) \<Rightarrow> Some (bind_hookspec s1 name method opts found))"

fun add_hookspecs_loop :: "discover_fn \<Rightarrow> manager \<Rightarrow> (string \<times> attribute) list \<Rightarrow> string list \<Rightarrow>
    (manager \<times> (error + string list)) option" where
  "add_hookspecs_loop d s [] names = Some (s, Inr names)"
| "add_hookspecs_loop d s ((name, method) # rest) names =
     (if \<not> attr_isroutine method then add_hookspecs_loop d s rest names
      else (case attr_spec method of
              None \<Rightarrow> add_hookspecs_loop d s rest names
            | Some opts \<Rightarrow>
                (case add_hookspec d s name method opts of
                   None \<Rightarrow> None
                 | Some (s1, Inl e) \<Rightarrow> Some (s1, Inl e)
                 | Some (s1, Inr u) \<Rightarrow> add_hookspecs_loop d s1 rest (names @ [name]))))"

definition add_hookspecs :: "discover_fn \<Rightarrow> manager \<Rightarrow> pyobject \<Rightarrow> (manager \<times> (error + unit)) option" where
  "add_hookspecs d s namespace =
     (case add_hookspecs_loop d s (obj_dir namespace) [] of
        None \<Rightarrow> None
      | Some (s1, Inl e) \<Rightarrow> Some (s1, Inl e)
      | Some (s1, Inr names) \<Rightarrow>
          if names = [] then Some (s1, Inl NoHooksFound) else Some (s1, Inr ()))"

section \<open>The pending-hook audit\<close>

fun check_pending_loop :: "discover_fn \<Rightarrow> manager \<Rightarrow> string list \<Rightarrow> (manager \<times> (error + unit)) option" where
  "check_pending_loop d s [] = Some (s, Inr ())"
| "check_pending_loop d s (name # rest) =
     (if take 1 name = ''_'' then check_pending_loop d s rest
      else (case relay_getattr d s name of
              None \<Rightarrow> None
            | Some (s1, Inl e) \<Rightarrow> Some (s1, Inl e)
            | Some (s1, Inr Absent) \<Rightarrow> Some (s1, Inl AttributeError)
            | Some (s1, Inr Other) \<Rightarrow> Some (s1, Inl AttributeError)
            | Some (s1, Inr (Caller hk)) \<Rightarrow>
                if \<not> has_spec hk then
                  (case find (\<lambda>hookimpl. \<not> impl_optionalhook hookimpl) (get_hookimpls hk) of
                     Some hookimpl \<Rightarrow>
                       Some (s1, Inl (PluginValidationError (impl_plugin hookimpl)
                                        (impl_plugin_name hookimpl) name UnknownHook))
                   | None \<Rightarrow> check_pending_loop d s1 rest)
                else check_pending_loop d s1 rest))"

text \<open>
  \<^verbatim>\<open>check_pending\<close>: reading \<^verbatim>\<open>self.hook.__dict__\<close> goes through the relay; the loop
  then runs over the names the relay holds at that moment.
\<close>

definition check_pending :: "discover_fn \<Rightarrow> manager \<Rightarrow> (manager \<times> (error + unit)) option" where
  "check_pending d s =
     (case relay_trigger d s ''__dict__'' of
        None \<Rightarrow> None
      | Some (s0, Inl e) \<Rightarrow> Some (s0, Inl e)
      | Some (s0, Inr u) \<Rightarrow> check_pending_loop d s0 (map fst (hook s0)))"

section \<open>Discovery\<close>

text \<open>
  The environment the discovery collaborators read: the three environment variables,
  the entry points of the installed distributions (in the order the two nested loops
  visit them) with what loading each one gives, and the modules \<^verbatim>\<open>pkgutil\<close> lists,
  each with the name of its distribution, when it has one, and what importing it gives.
\<close>

record entry_point =
  ep_group :: string
  ep_name :: string
  ep_value :: string
  ep_load :: "error + namespace"

record module_info =
  mod_name :: string
  mod_dist_name :: "string option"
  mod_import :: "error + namespace"

record environment =
  env_disable_all :: bool
  env_disable_entrypoints :: bool
  env_disable_prefix :: bool
  env_entry_points :: "entry_point list"
  env_modules :: "module_info list"

text \<open>
  \<^verbatim>\<open>is_registered\<close> on what was loaded; a dict is not hashable, and an object may
  not be.
\<close>

definition is_registered :: "manager \<Rightarrow> namespace \<Rightarrow> error + bool" where
  "is_registered s obj =
     (case obj of
        StrNS n \<Rightarrow> Inr (is_registered_name s n)
      | DictNS i dct \<Rightarrow> Inl TypeError
      | ObjNS ob \<Rightarrow> if obj_hashable ob then Inr (is_registered_object s (obj_id ob))
                    else Inl TypeError)"

definition isclass_or_ismodule :: "namespace \<Rightarrow> bool" where
  "isclass_or_ismodule obj = (case obj of ObjNS ob \<Rightarrow> obj_is_class_or_module ob | _ \<Rightarrow> False)"

text \<open>
  \<^verbatim>\<open>_load_and_register\<close>; \<open>loaded\<close> is what \<^verbatim>\<open>mod.load()\<close> or
  \<^verbatim>\<open>importlib.import_module(mod)\<close> gives, an exception or an object.
\<close>

definition load_and_register :: "discover_fn \<Rightarrow> manager \<Rightarrow> error + namespace \<Rightarrow> string option \<Rightarrow>
    (manager \<times> (error + string option)) option" where
  "load_and_register d s loaded plugin_name =
     (case loaded of
        Inl exc \<Rightarrow> Some (s, Inl (PluginImportError plugin_name exc))
      | Inr module \<Rightarrow>
          (case is_registered s module of
             Inl exc \<Rightarrow> Some (s, Inl (PluginImportError plugin_name exc))
           | Inr True \<Rightarrow> Some (s, Inr None)
           | Inr False \<Rightarrow>
               if \<not> isclass_or_ismodule module then
                 Some (s, Inl (PluginRegistrationError plugin_name None))
               else
                 (case register d s module plugin_name of
                    None \<Rightarrow> None
                  | Some (s1, Inl e) \<Rightarrow>
                      if is_plugin_error e then Some (s1, Inl e)
                      else Some (s1, Inl (PluginRegistrationError plugin_name (Some e)))
                  | Some (s1, Inr r) \<Rightarrow> Some (s1, Inr r))))"

definition truthy :: "string option \<Rightarrow> bool" where
  "truthy r = (case r of None \<Rightarrow> False | Some n \<Rightarrow> n \<noteq> [])"

fun load_entrypoints_loop :: "discover_fn \<Rightarrow> manager \<Rightarrow> string \<Rightarrow> string \<Rightarrow> bool \<Rightarrow>
    entry_point list \<Rightarrow> nat \<Rightarrow> error list \<Rightarrow> (manager \<times> (error + nat \<times> error list)) option" where
  "load_entrypoints_loop d s grp name ignore_errors [] count errors = Some (s, Inr (count, errors))"
| "load_entrypoints_loop d s grp name ignore_errors (ep # rest) count errors =
     (if ep_group ep \<noteq> grp \<or> (name \<noteq> [] \<and> ep_name ep \<noteq> name)
         \<or> is_registered_name s (ep_name ep) \<or> is_blocked s (ep_name ep)
      then load_entrypoints_loop d s grp name ignore_errors rest count errors
      else (case load_and_register d s (ep_load ep) (Some (ep_name ep)) of
              None \<Rightarrow> None
            | Some (s1, Inr r) \<Rightarrow>
                load_entrypoints_loop d s1 grp name ignore_errors rest
                  (if truthy r then count + 1 else count) errors
            | Some (s1, Inl e) \<Rightarrow>
                if is_plugin_error e then
                  (let s2 = set_blocked s1 (ep_name ep) True
                   in if ignore_errors then
                        load_entrypoints_loop d s2 grp name ignore_errors rest count (errors @ [e])
                      else Some (s2, Inl e))
                else Some (s1, Inl e)))"

definition load_entrypoints :: "discover_fn \<Rightarrow> environment \<Rightarrow> manager \<Rightarrow> string \<Rightarrow> string \<Rightarrow> bool \<Rightarrow>
    (manager \<times> (error + nat \<times> error list)) option" where
  "load_entrypoints d env s grp name ignore_errors =
     (if grp = [] \<or> env_disable_entrypoints env then Some (s, Inr (0, []))
      else load_entrypoints_loop d s grp name ignore_errors (env_entry_points env) 0 [])"

definition display_name :: "module_info \<Rightarrow> string" where
  "display_name m = (case mod_dist_name m of None \<Rightarrow> mod_name m | Some n \<Rightarrow> n)"

fun load_modules_loop :: "discover_fn \<Rightarrow> manager \<Rightarrow> string \<Rightarrow> bool \<Rightarrow>
    module_info list \<Rightarrow> nat \<Rightarrow> error list \<Rightarrow> (manager \<times> (error + nat \<times> error list)) option" where
  "load_modules_loop d s prefix ignore_errors [] count errors = Some (s, Inr (count, errors))"
| "load_modules_loop d s prefix ignore_errors (m # rest) count errors =
     (if take (length prefix) (mod_name m) \<noteq> prefix
      then load_modules_loop d s prefix ignore_errors rest count errors
      else if is_registered_name s (display_name m) \<or> is_blocked s (display_name m)
      then load_modules_loop d s prefix ignore_errors rest count errors
      else (case load_and_register d s (mod_import m) (Some (display_name m)) of
              None \<Rightarrow> None
            | Some (s1, Inr r) \<Rightarrow>
                load_modules_loop d s1 prefix ignore_errors rest
                  (if truthy r then count + 1 else count) errors
            | Some (s1, Inl e) \<Rightarrow>
                if is_plugin_error e then
                  (let s2 = set_blocked s1 (display_name m) True
                   in if ignore_errors then
                        load_modules_loop d s2 prefix ignore_errors rest count (errors @ [e])
                      else Some (s2, Inl e))
                else Some (s1, Inl e)))"

definition load_modules_by_prefix :: "discover_fn \<Rightarrow> environment \<Rightarrow> manager \<Rightarrow> string \<Rightarrow> bool \<Rightarrow>
    (manager \<times> (error + nat \<times> error list)) option" where
  "load_modules_by_prefix d env s prefix ignore_errors =
     (if env_disable_prefix env \<or> prefix = [] then Some (s, Inr (0, []))
      else load_modules_loop d s prefix ignore_errors (env_modules env) 0 [])"

text \<open>
  \<^verbatim>\<open>discover\<close>. The flag of the relay is cleared first. The \<^verbatim>\<open>path\<close> argument only
  changes what the environment holds and is part of \<open>env\<close>.
\<close>

definition discover :: "discover_fn \<Rightarrow> environment \<Rightarrow> manager \<Rightarrow> string option \<Rightarrow> string option \<Rightarrow> bool \<Rightarrow>
    (manager \<times> (error + nat \<times> error list)) option" where
  "discover d env s entry_point0 prefix0 ignore_errors =
     (let entry_point = (case entry_point0 of
                           None \<Rightarrow> discover_entry_point s
                         | Some e \<Rightarrow> if e = [] then discover_entry_point s else e);
          prefix = (case prefix0 of
                      None \<Rightarrow> discover_prefix s
                    | Some p \<Rightarrow> if p = [] then discover_prefix s else p);
          s0 = s\<lparr>needs_discovery := False\<rparr>
      in if env_disable_all env then
           Some (s0\<lparr>emitted := emitted s0 @ [DiscoveryDisabled]\<rparr>, Inr (0, []))
         else
           (case load_entrypoints d env s0 entry_point [] ignore_errors of
              None \<Rightarrow> None
            | Some (s1, Inl e) \<Rightarrow> Some (s1, Inl e)
            | Some (s1, Inr (count, errs)) \<Rightarrow>
                (case load_modules_by_prefix d env s1 prefix ignore_errors of
                   None \<Rightarrow> None
                 | Some (s2, Inl e) \<Rightarrow> Some (s2, Inl e)
                 | Some (s2, Inr (n, err)) \<Rightarrow> Some (s2, Inr (count + n, errs @ err)))))"

text \<open>
  \<^verbatim>\<open>self._manager.discover()\<close> as the relay calls it. A pass started while another one
  runs is a nested call; \<open>relay_discover n\<close> is the call with room for \<open>n\<close> nested
  passes, and \<open>None\<close> when that room is used up.
\<close>

primrec relay_discover :: "nat \<Rightarrow> environment \<Rightarrow> discover_fn" where
  "relay_discover 0 env = (\<lambda>s. None)"
| "relay_discover (Suc n) env =
     (\<lambda>s. case discover (relay_discover n env) env s None None True of
             None \<Rightarrow> None
           | Some (s1, Inl e) \<Rightarrow> Some (s1, Inl e)
           | Some (s1, Inr r) \<Rightarrow> Some (s1, Inr ()))"



section \<open>Example values\<close>

text \<open>Objects, states and environments the theorems below are evaluated on.\<close>

definition no_discovery :: discover_fn where
  "no_discovery = (\<lambda>s. None)"

definition plain_object :: "nat \<Rightarrow> pyobject" where
  "plain_object i = \<lparr>obj_id = i, obj_name = None, obj_hashable = True,
                      obj_is_class_or_module = False, obj_dir = []\<rparr>"

definition abc_registered :: manager where
  "abc_registered = (init_manager [] [])\<lparr>plugins := [(''abc'', 42)], plugin2hookcallers := [(42, [])]\<rparr>"

section \<open>Proof vocabulary\<close>

text \<open>
  An operation is quiet when it returns the same manager and result whatever the nested
  discovery call is, and the relay's flag is clear afterwards: it never starts a
  discovery pass.
\<close>

definition quiet :: "(discover_fn \<Rightarrow> (manager \<times> 'a) option) \<Rightarrow> bool" where
  "quiet f = (\<exists>s' r. \<not> needs_discovery s' \<and> (\<forall>d. f d = Some (s', r)))"

definition default_impl_opts :: impl_opts where
  "default_impl_opts = \<lparr>opt_hookwrapper = False, opt_optionalhook = False,
                        opt_priority = Neutral, opt_specname = None\<rparr>"

definition default_spec_opts :: spec_opts where
  "default_spec_opts = \<lparr>opt_historic = False, opt_firstresult = False, opt_warn_on_impl = None\<rparr>"

definition impl_method :: "string \<Rightarrow> string list \<Rightarrow> impl_opts \<Rightarrow> attribute" where
  "impl_method name args opts =
     \<lparr>attr_isroutine = True, attr_isfunction = True, attr_funcname = name, attr_argnames = args,
      attr_function = (\<lambda>kw. Inr None), attr_impl = Some opts, attr_spec = None\<rparr>"

definition spec_method :: "string \<Rightarrow> string list \<Rightarrow> spec_opts \<Rightarrow> attribute" where
  "spec_method name args opts =
     \<lparr>attr_isroutine = True, attr_isfunction = True, attr_funcname = name, attr_argnames = args,
      attr_function = (\<lambda>kw. Inr None), attr_impl = None, attr_spec = Some opts\<rparr>"

definition class_object :: "nat \<Rightarrow> string \<Rightarrow> (string \<times> attribute) list \<Rightarrow> pyobject" where
  "class_object i name attrs =
     \<lparr>obj_id = i, obj_name = Some name, obj_hashable = True, obj_is_class_or_module = True,
      obj_dir = attrs\<rparr>"

text \<open>A plugin class with one implementation \<^verbatim>\<open>he_method1(arg)\<close>.\<close>

definition Plugin1 :: pyobject where
  "Plugin1 = class_object 1 ''Plugin1'' [(''he_method1'', impl_method ''he_method1'' [''arg''] default_impl_opts)]"

text \<open>An environment whose one entry point, \<^verbatim>\<open>b\<close> of group \<^verbatim>\<open>grp\<close>, loads \<open>Plugin1\<close>.\<close>

definition env_b :: environment where
  "env_b = \<lparr>env_disable_all = False, env_disable_entrypoints = False, env_disable_prefix = False,
            env_entry_points = [\<lparr>ep_group = ''grp'', ep_name = ''b'', ep_value = ''pkg:Plugin1'',
                                 ep_load = Inr (ObjNS Plugin1)\<rparr>],
            env_modules = []\<rparr>"

text \<open>A builtin such as \<^verbatim>\<open>len\<close>: callable and a routine, but not a plain function.\<close>

definition builtin_callable :: attribute where
  "builtin_callable =
     \<lparr>attr_isroutine = True, attr_isfunction = False, attr_funcname = ''len'',
      attr_argnames = [''obj''], attr_function = (\<lambda>kw. Inr None), attr_impl = None,
      attr_spec = None\<rparr>"

definition plain_function :: "string \<Rightarrow> string list \<Rightarrow> attribute" where
  "plain_function name args =
     \<lparr>attr_isroutine = True, attr_isfunction = True, attr_funcname = name, attr_argnames = args,
      attr_function = (\<lambda>kw. Inr None), attr_impl = None, attr_spec = None\<rparr>"

text \<open>
  An implementation that \<^verbatim>\<open>check_pending\<close> objects to: it is attached to a caller
  that the relay holds under a name not starting with an underscore, the caller has no
  specification, and the implementation is not optional.
\<close>

definition unknown_nonoptional :: "manager \<Rightarrow> string \<Rightarrow> hookimpl \<Rightarrow> bool" where
  "unknown_nonoptional s name h =
     (take 1 name \<noteq> ''_'' \<and>
      (case map_of (hook s) name of
         None \<Rightarrow> False
       | Some hc \<Rightarrow> \<not> has_spec hc \<and> h \<in> set (get_hookimpls hc) \<and> \<not> impl_optionalhook h))"

text \<open>A plugin whose only implementation targets the hook \<^verbatim>\<open>_hidden\<close>.\<close>

definition PluginHidden :: pyobject where
  "PluginHidden = class_object 2 ''PluginHidden'' [(''_hidden'', impl_method ''_hidden'' [] default_impl_opts)]"

text \<open>A plugin whose only implementation targets a hook nobody specified.\<close>

definition PluginUnknown :: pyobject where
  "PluginUnknown = class_object 3 ''PluginUnknown''
     [(''he_method_notexists'', impl_method ''he_method_notexists'' [] default_impl_opts)]"

text \<open>An environment with nothing to discover.\<close>

definition env_none :: environment where
  "env_none = \<lparr>env_disable_all = False, env_disable_entrypoints = False, env_disable_prefix = False,
               env_entry_points = [], env_modules = []\<rparr>"

text \<open>The manager after a fresh one registered \<open>PluginHidden\<close>, and after \<open>PluginUnknown\<close>.\<close>

definition hidden_impl :: hookimpl where
  "hidden_impl = (HookImplementation (impl_method ''_hidden'' [] default_impl_opts) 2 default_impl_opts)
                   \<lparr>impl_plugin_name := Some ''PluginHidden''\<rparr>"

definition hidden_caller :: hook_caller where
  "hidden_caller = \<lparr>hc_name = ''_hidden'', hc_spec = None, hc_hookimpls = [hidden_impl],
                    hc_call_history = []\<rparr>"

definition hidden_registered :: manager where
  "hidden_registered =
     (init_manager [] [])\<lparr>plugins := [(''PluginHidden'', 2)],
                           plugin2hookcallers := [(2, [''_hidden''])],
                           hook := [(''_hidden'', hidden_caller)], needs_discovery := False\<rparr>"

definition unknown_impl :: hookimpl where
  "unknown_impl =
     (HookImplementation (impl_method ''he_method_notexists'' [] default_impl_opts) 3 default_impl_opts)
       \<lparr>impl_plugin_name := Some ''PluginUnknown''\<rparr>"

definition unknown_registered :: manager where
  "unknown_registered =
     (init_manager [] [])\<lparr>plugins := [(''PluginUnknown'', 3)],
                           plugin2hookcallers := [(3, [''he_method_notexists''])],
                           hook := [(''he_method_notexists'',
                                     \<lparr>hc_name = ''he_method_notexists'', hc_spec = None,
                                      hc_hookimpls = [unknown_impl], hc_call_history = []\<rparr>)],
                           needs_discovery := False\<rparr>"






section \<open>The validation invariant\<close>

text \<open>
  An implementation fits a specification when its parameter names are among the
  specification's. A caller is valid, up to a set \<open>X\<close> of implementations left aside,
  when it has no specification or all its other implementations fit the one it has; the
  registry is valid when every caller the relay holds is.
\<close>

definition impl_fits :: "hookspec \<Rightarrow> hookimpl \<Rightarrow> bool" where
  "impl_fits sp h = (set (impl_argnames h) \<subseteq> set (spec_argnames sp))"

definition caller_valid :: "hookimpl set \<Rightarrow> hook_caller \<Rightarrow> bool" where
  "caller_valid X hc =
     (case hc_spec hc of
        None \<Rightarrow> True
      | Some sp \<Rightarrow> list_all (\<lambda>h. h \<in> X \<or> impl_fits sp h) (hc_hookimpls hc))"

definition registry_valid :: "hookimpl set \<Rightarrow> manager \<Rightarrow> bool" where
  "registry_valid X s = list_all (\<lambda>(name, hc). caller_valid X hc) (hook s)"

text \<open>
  The managers reachable from a fresh one through \<^verbatim>\<open>register\<close>, \<^verbatim>\<open>add_hookspecs\<close>,
  \<^verbatim>\<open>unregister\<close> and \<^verbatim>\<open>set_blocked\<close>, in any environment, whether the call returned
  or raised.
\<close>

inductive reachable :: "manager \<Rightarrow> bool" where
  reach_init: "reachable (init_manager entry_point prefix)"
| reach_register:
    "reachable s \<Longrightarrow> register (relay_discover n env) s namespace name = Some (s', r) \<Longrightarrow> reachable s'"
| reach_add_hookspecs:
    "reachable s \<Longrightarrow> add_hookspecs (relay_discover n env) s obj = Some (s', r) \<Longrightarrow> reachable s'"
| reach_unregister: "reachable s \<Longrightarrow> reachable (fst (unregister s name_or_object))"
| reach_set_blocked: "reachable s \<Longrightarrow> reachable (set_blocked s plugin_name blk)"

text \<open>
  The implementations that a call leaves unverified. When \<^verbatim>\<open>add_hookspecs\<close> raises a
  validation failure, it was binding a specification to the caller that the error
  names; these are the implementations that caller holds in the manager the call left.
  Any other outcome leaves none.
\<close>

definition left_unverified :: "manager \<Rightarrow> error \<Rightarrow> hookimpl set" where
  "left_unverified s' e =
     (case e of
        PluginValidationError plugin plugin_name hook_name reason \<Rightarrow>
          {h. \<exists>(name, hc) \<in> set (hook s'). hc_name hc = hook_name \<and> h \<in> set (hc_hookimpls hc)}
      | _ \<Rightarrow> {})"

definition exempt_after :: "manager \<Rightarrow> error + 'a \<Rightarrow> hookimpl set" where
  "exempt_after s' r = (case r of Inl e \<Rightarrow> left_unverified s' e | Inr x \<Rightarrow> {})"

text \<open>
  The same managers, each with the implementations that the calls of \<^verbatim>\<open>add_hookspecs\<close>
  on the way to it left unverified; \<^verbatim>\<open>discover\<close> is one of the operations here.
\<close>

inductive reachable_exempt :: "manager \<Rightarrow> hookimpl set \<Rightarrow> bool" where
  exempt_init: "reachable_exempt (init_manager entry_point prefix) {}"
| exempt_register:
    "reachable_exempt s X \<Longrightarrow> register (relay_discover n env) s namespace name = Some (s', r) \<Longrightarrow>
     reachable_exempt s' X"
| exempt_add_hookspecs:
    "reachable_exempt s X \<Longrightarrow> add_hookspecs (relay_discover n env) s obj = Some (s', r) \<Longrightarrow>
     reachable_exempt s' (X \<union> exempt_after s' r)"
| exempt_unregister: "reachable_exempt s X \<Longrightarrow> reachable_exempt (fst (unregister s name_or_object)) X"
| exempt_set_blocked: "reachable_exempt s X \<Longrightarrow> reachable_exempt (set_blocked s plugin_name blk) X"
| exempt_discover:
    "reachable_exempt s X \<Longrightarrow>
     discover (relay_discover n env) env s entry_point prefix ignore_errors = Some (s', r) \<Longrightarrow>
     reachable_exempt s' X"

text \<open>A nested discovery call that keeps the registry valid.\<close>

definition keeps_valid :: "hookimpl set \<Rightarrow> discover_fn \<Rightarrow> bool" where
  "keeps_valid X d = (\<forall>s s' r. d s = Some (s', r) \<longrightarrow> registry_valid X s \<longrightarrow> registry_valid X s')"

text \<open>
  The specification namespace \<^verbatim>\<open>Hooks\<close> with \<^verbatim>\<open>he_method1(arg)\<close>, and a plugin whose
  implementation of it takes a parameter the specification does not have.
\<close>

definition Hooks :: pyobject where
  "Hooks = class_object 10 ''Hooks'' [(''he_method1'', spec_method ''he_method1'' [''arg''] default_spec_opts)]"

definition hooks_spec :: hookspec where
  "hooks_spec = HookSpecification (spec_method ''he_method1'' [''arg''] default_spec_opts) default_spec_opts"

definition PluginMismatch :: pyobject where
  "PluginMismatch = class_object 4 ''hello''
     [(''he_method1'', impl_method ''he_method1'' [''qlwkje''] default_impl_opts)]"

definition mismatch_impl :: hookimpl where
  "mismatch_impl =
     (HookImplementation (impl_method ''he_method1'' [''qlwkje''] default_impl_opts) 4 default_impl_opts)
       \<lparr>impl_plugin_name := Some ''hello''\<rparr>"

definition plugin1_impl :: hookimpl where
  "plugin1_impl =
     (HookImplementation (impl_method ''he_method1'' [''arg''] default_impl_opts) 1 default_impl_opts)
       \<lparr>impl_plugin_name := Some ''Plugin1''\<rparr>"

text \<open>
  A fresh manager after it registered a plugin implementing \<^verbatim>\<open>he_method1\<close> (with no
  specification around yet), and after it then, with or without success, declared
  \<open>Hooks\<close>.
\<close>

definition unbound_caller :: "hookimpl \<Rightarrow> hook_caller" where
  "unbound_caller impl = \<lparr>hc_name = ''he_method1'', hc_spec = None, hc_hookimpls = [impl],
                          hc_call_history = []\<rparr>"

definition bound_caller :: "hookimpl \<Rightarrow> hook_caller" where
  "bound_caller impl = (unbound_caller impl)\<lparr>hc_spec := Some hooks_spec\<rparr>"

definition registered_unbound :: "pyobject \<Rightarrow> hookimpl \<Rightarrow> manager" where
  "registered_unbound plugin impl =
     (init_manager [] [])\<lparr>plugins := [(the (obj_name plugin), obj_id plugin)],
                           plugin2hookcallers := [(obj_id plugin, [''he_method1''])],
                           hook := [(''he_method1'', unbound_caller impl)],
                           needs_discovery := False\<rparr>"

definition registered_then_bound :: "pyobject \<Rightarrow> hookimpl \<Rightarrow> manager" where
  "registered_then_bound plugin impl =
     (registered_unbound plugin impl)\<lparr>hook := [(''he_method1'', bound_caller impl)]\<rparr>"

section \<open>Callers are kept\<close>

text \<open>
  From one manager to a later one the caller of a name is kept when it is still the
  relay's entry for that name, with the same specification, name and call history, and
  with at least the implementations it had. An implementation is attached when the
  caller the relay holds under its hook name has it in its list.
\<close>

definition caller_kept :: "string \<Rightarrow> manager \<Rightarrow> manager \<Rightarrow> bool" where
  "caller_kept name s s' =
     (case map_of (hook s) name of
        None \<Rightarrow> True
      | Some hc \<Rightarrow>
          (case map_of (hook s') name of
             None \<Rightarrow> False
           | Some hc' \<Rightarrow> hc_spec hc' = hc_spec hc \<and> hc_name hc' = hc_name hc
                          \<and> hc_call_history hc' = hc_call_history hc
                          \<and> set (hc_hookimpls hc) \<subseteq> set (hc_hookimpls hc')))"

definition callers_kept :: "manager \<Rightarrow> manager \<Rightarrow> bool" where
  "callers_kept s s' = (\<forall>name. caller_kept name s s')"


definition keeps_callers :: "discover_fn \<Rightarrow> bool" where
  "keeps_callers d = (\<forall>s s' r. d s = Some (s', r) \<longrightarrow> callers_kept s s')"

definition attached :: "manager \<Rightarrow> hookimpl \<Rightarrow> bool" where
  "attached s h =
     (case map_of (hook s) (impl_specname h) of
        None \<Rightarrow> False
      | Some hc \<Rightarrow> h \<in> set (hc_hookimpls hc))"

text \<open>
  What \<^verbatim>\<open>_verify_hook\<close> refuses under a specification: a wrapper when the
  specification is historic, and an implementation that does not fit.
\<close>

definition spec_rejects :: "hookspec \<Rightarrow> hookimpl \<Rightarrow> bool" where
  "spec_rejects sp h = ((spec_historic sp \<and> impl_hookwrapper h) \<or> \<not> impl_fits sp h)"





















text \<open>
  The manager after a fresh one, with the entry-point group \<^verbatim>\<open>grp\<close> to discover, registered
  \<open>Plugin1\<close> under the name \<^verbatim>\<open>a\<close> in an environment whose entry point \<^verbatim>\<open>b\<close> loads
  \<open>Plugin1\<close> too: the discovery pass that the first hook read triggers registers the
  class as \<^verbatim>\<open>b\<close>, and the call then records it as \<^verbatim>\<open>a\<close>.
\<close>

definition both_names :: manager where
  "both_names =
     (init_manager ''grp'' [])
       \<lparr>plugins := [(''b'', 1), (''a'', 1)],
         plugin2hookcallers := [(1, [''he_method1''])],
         hook := [(''he_method1'',
                   \<lparr>hc_name = ''he_method1'', hc_spec = None,
                    hc_hookimpls = [plugin1_impl\<lparr>impl_plugin_name := Some ''a''\<rparr>,
                                    plugin1_impl\<lparr>impl_plugin_name := Some ''b''\<rparr>],
                    hc_call_history = []\<rparr>)],
         needs_discovery := False\<rparr>"

section \<open>Duplicate registration\<close>

lemma register_name_taken:
  "\<not> is_blocked s (plugin_name_of obj name) \<Longrightarrow> is_registered_name s (plugin_name_of obj name) \<Longrightarrow>
   register_object d s obj name = Some (s, Inl (NameAlreadyRegistered (plugin_name_of obj name)))"
  by (simp add: register_object_def)

lemma register_object_taken:
  "\<not> is_blocked s (plugin_name_of obj name) \<Longrightarrow> \<not> is_registered_name s (plugin_name_of obj name) \<Longrightarrow>
   is_registered s (ObjNS obj) = Inr True \<Longrightarrow>
   register_object d s obj name = Some (s, Inl (ModuleAlreadyRegistered (obj_id obj)))"
  by (simp add: register_object_def is_registered_def split: if_splits)

lemma ensure_namespace_dict:
  "ensure_namespace (DictNS i dct) =
     (if filter (\<lambda>k. \<not> isidentifier k) (map fst dct) \<noteq> []
      then Inl (InvalidIdentifiers (filter (\<lambda>k. \<not> isidentifier k) (map fst dct)))
      else Inr (ObjNS \<lparr>obj_id = i, obj_name = Some ''orphan'', obj_hashable = True, obj_is_class_or_module = True,
                       obj_dir = sort_key fst dct\<rparr>))"
  by (simp add: ensure_namespace_def Let_def)

text \<open>
  C2. Registering under a name that is not blocked raises when the name is already
  registered (whatever object holds it) and raises when the object is already
  registered (under whatever name: \<^verbatim>\<open>is_registered\<close> returns \<^verbatim>\<open>True\<close> for it); the
  manager is left exactly as it was. A dict
  is registered as the class \<^verbatim>\<open>ensure_namespace\<close> builds from it and meets the same
  name check.
\<close>

theorem register_duplicate_raises:
  "(\<not> is_blocked s (plugin_name_of obj name) \<and> is_registered_name s (plugin_name_of obj name)
      \<longrightarrow> register d s (ObjNS obj) name =
            Some (s, Inl (NameAlreadyRegistered (plugin_name_of obj name))))
   \<and> (\<not> is_blocked s (plugin_name_of obj name) \<and> is_registered s (ObjNS obj) = Inr True
      \<longrightarrow> register d s (ObjNS obj) name =
            Some (s, Inl (if is_registered_name s (plugin_name_of obj name)
                          then NameAlreadyRegistered (plugin_name_of obj name)
                          else ModuleAlreadyRegistered (obj_id obj))))
   \<and> (ensure_namespace (DictNS i (clean_dct dct)) = Inr (ObjNS cls)
        \<and> \<not> is_blocked s (plugin_name_of cls name) \<and> is_registered_name s (plugin_name_of cls name)
      \<longrightarrow> register d s (DictNS i dct) name =
            Some (s, Inl (NameAlreadyRegistered (plugin_name_of cls name))))"
proof (intro conjI impI)
  assume "\<not> is_blocked s (plugin_name_of obj name) \<and> is_registered_name s (plugin_name_of obj name)"
  then show "register d s (ObjNS obj) name =
      Some (s, Inl (NameAlreadyRegistered (plugin_name_of obj name)))"
    by (simp add: register_def register_name_taken)
next
  assume "\<not> is_blocked s (plugin_name_of obj name) \<and> is_registered s (ObjNS obj) = Inr True"
  then show "register d s (ObjNS obj) name =
      Some (s, Inl (if is_registered_name s (plugin_name_of obj name)
                    then NameAlreadyRegistered (plugin_name_of obj name)
                    else ModuleAlreadyRegistered (obj_id obj)))"
    by (simp add: register_def register_name_taken register_object_taken)
next
  assume a: "ensure_namespace (DictNS i (clean_dct dct)) = Inr (ObjNS cls)
      \<and> \<not> is_blocked s (plugin_name_of cls name) \<and> is_registered_name s (plugin_name_of cls name)"
  then have "register d s (DictNS i dct) name = register_object d s cls name"
    by (simp add: register_def register_dict_def)
  with a show "register d s (DictNS i dct) name =
      Some (s, Inl (NameAlreadyRegistered (plugin_name_of cls name)))"
    by (simp add: register_name_taken)
qed

theorem register_duplicate_raises_witness:
  "register no_discovery abc_registered (ObjNS (plain_object 42)) (Some ''abc'') =
     Some (abc_registered, Inl (NameAlreadyRegistered ''abc''))
   \<and> register no_discovery abc_registered (ObjNS (plain_object 42)) (Some ''def'') =
     Some (abc_registered, Inl (ModuleAlreadyRegistered 42))
   \<and> register no_discovery abc_registered (DictNS 7 []) (Some ''abc'') =
     Some (abc_registered, Inl (NameAlreadyRegistered ''abc''))"
  using register_duplicate_raises [of abc_registered "plain_object 42" "Some ''abc''" no_discovery
          7 "[]" "\<lparr>obj_id = 7, obj_name = Some ''orphan'', obj_hashable = True, obj_is_class_or_module = True, obj_dir = []\<rparr>"]
        register_duplicate_raises [of abc_registered "plain_object 42" "Some ''def''" no_discovery
          7 "[]" "\<lparr>obj_id = 7, obj_name = Some ''orphan'', obj_hashable = True, obj_is_class_or_module = True, obj_dir = []\<rparr>"]
  by (simp add: plugin_name_of_def is_blocked_def is_registered_name_def is_registered_object_def
        is_registered_def abc_registered_def init_manager_def plain_object_def ensure_namespace_dict
        clean_dct_def)

section \<open>Operations that start no discovery pass\<close>

lemma quietI: "\<not> needs_discovery s' \<Longrightarrow> (\<And>d. f d = Some (s', r)) \<Longrightarrow> quiet f"
  by (auto simp: quiet_def)

lemma quietE: "quiet f \<Longrightarrow> (\<And>s' r. \<not> needs_discovery s' \<Longrightarrow> (\<And>d. f d = Some (s', r)) \<Longrightarrow> P) \<Longrightarrow> P"
  by (auto simp: quiet_def)

lemma relay_lookup_caller:
  "map_of (hook s) name = Some hc \<Longrightarrow> name \<notin> set relay_slots \<Longrightarrow> relay_lookup s name = Caller hc"
  by (simp add: relay_lookup_def)

lemma relay_lookup_CallerD: "relay_lookup s name = Caller hc \<Longrightarrow> map_of (hook s) name = Some hc"
  by (auto simp: relay_lookup_def split: if_splits option.splits)

lemma relay_lookup_AbsentD: "relay_lookup s name = Absent \<Longrightarrow> map_of (hook s) name = None"
  by (auto simp: relay_lookup_def split: if_splits option.splits)


lemma relay_slots_underscore: "take 1 name \<noteq> ''_'' \<Longrightarrow> name \<notin> set relay_slots"
  by (auto simp: relay_slots_def)

lemma relay_trigger_clear: "\<not> needs_discovery s \<Longrightarrow> relay_trigger d s name = Some (s, Inr ())"
  by (simp add: relay_trigger_def)

lemma relay_getattr_clear:
  "\<not> needs_discovery s \<Longrightarrow> relay_getattr d s name = Some (s, Inr (relay_lookup s name))"
  by (simp add: relay_getattr_def relay_trigger_clear)

lemma verify_hook_frame:
  "verify_hook s hc h = (s', r) \<Longrightarrow> s' = s\<lparr>emitted := emitted s'\<rparr>"
  by (auto simp: verify_hook_def Let_def split: option.splits if_splits)

lemma maybe_apply_history_frame:
  "maybe_apply_history s hc h = (s', r) \<Longrightarrow> s' = s\<lparr>callback_out := callback_out s'\<rparr>"
  by (auto simp: maybe_apply_history_def split: prod.splits if_splits)

lemma verify_hook_nd: "verify_hook s hc h = (s', r) \<Longrightarrow> needs_discovery s' = needs_discovery s"
  by (drule verify_hook_frame, erule ssubst) simp

lemma maybe_apply_history_nd: "maybe_apply_history s hc h = (s', r) \<Longrightarrow> needs_discovery s' = needs_discovery s"
  by (drule maybe_apply_history_frame, erule ssubst) simp

lemma needs_discovery_set_hook [simp]: "needs_discovery (set_hook s n hc) = needs_discovery s"
  by (simp add: set_hook_def)

lemma attach_hookimpl_nd:
  "attach_hookimpl s h found = (s', r) \<Longrightarrow> needs_discovery s' = needs_discovery s"
  by (auto simp: attach_hookimpl_def Let_def
        split: relay_value.splits prod.splits sum.splits if_splits
        dest: verify_hook_nd maybe_apply_history_nd)

lemma register_hookimpl_settled:
  "\<not> needs_discovery s \<Longrightarrow>
   register_hookimpl d pn s h =
     Some (attach_hookimpl s (h\<lparr>impl_plugin_name := Some pn\<rparr>) (relay_lookup s (impl_specname h)))"
  by (simp add: register_hookimpl_def Let_def relay_getattr_clear)

lemma quiet_const: "\<not> needs_discovery s \<Longrightarrow> quiet (\<lambda>d. Some (s, r))"
  by (auto simp: quiet_def)

lemma quiet_if: "(c \<Longrightarrow> quiet f) \<Longrightarrow> (\<not> c \<Longrightarrow> quiet g) \<Longrightarrow> quiet (\<lambda>d. if c then f d else g d)"
  by (cases c) auto

lemma quiet_bind:
  assumes "quiet f" and "\<And>s' r. \<not> needs_discovery s' \<Longrightarrow> quiet (\<lambda>d. g d s' r)"
  shows "quiet (\<lambda>d. case f d of None \<Rightarrow> None | Some (s', r) \<Rightarrow> g d s' r)"
proof -
  from assms(1) obtain s' r where nd: "\<not> needs_discovery s'" and eq: "\<And>d. f d = Some (s', r)"
    by (auto elim: quietE)
  from assms(2)[OF nd, of r] show ?thesis
    by (simp add: eq)
qed

lemma quiet_sum:
  "(\<And>e. r = Inl e \<Longrightarrow> quiet (\<lambda>d. f d e)) \<Longrightarrow> (\<And>x. r = Inr x \<Longrightarrow> quiet (\<lambda>d. g d x)) \<Longrightarrow>
   quiet (\<lambda>d. case r of Inl e \<Rightarrow> f d e | Inr x \<Rightarrow> g d x)"
  by (cases r) auto

lemma quiet_register_hookimpl:
  assumes "\<not> needs_discovery s"
  shows "quiet (\<lambda>d. register_hookimpl d pn s h)"
proof -
  obtain s' r where *: "attach_hookimpl s (h\<lparr>impl_plugin_name := Some pn\<rparr>)
      (relay_lookup s (impl_specname h)) = (s', r)"
    by fastforce
  show ?thesis
    by (rule quietI[of s' _ r])
       (use assms * attach_hookimpl_nd[OF *] in \<open>simp_all add: register_hookimpl_settled\<close>)
qed

lemma quiet_register_impls:
  "\<not> needs_discovery s \<Longrightarrow> quiet (\<lambda>d. register_impls d pn s hs acc)"
proof (induction hs arbitrary: s acc)
  case Nil
  then show ?case by (simp add: quiet_const)
next
  case (Cons h hs)
  show ?case
    unfolding register_impls.simps
    by (rule quiet_bind[OF quiet_register_hookimpl[OF Cons.prems]], rule quiet_sum)
       (simp_all add: quiet_const Cons.IH)
qed

lemma quiet_register_object:
  assumes nd: "\<not> needs_discovery s"
  shows "quiet (\<lambda>d. register_object d s obj name)"
  unfolding register_object_def Let_def
  by (intro quiet_if quiet_const nd quiet_bind[OF quiet_register_impls[OF nd]] quiet_sum)
     (simp_all add: quiet_const)

lemma quiet_register:
  "\<not> needs_discovery s \<Longrightarrow> quiet (\<lambda>d. register d s ns name)"
  by (cases ns)
     (simp_all add: register_def register_dict_def ensure_namespace_dict quiet_register_object quiet_const)

lemma unregister_nd [simp]: "needs_discovery (fst (unregister s k)) = needs_discovery s"
proof -
  have "needs_discovery (fold (remove_plugin_at p) ns s0) = needs_discovery s0" for p ns s0
    by (induction ns arbitrary: s0) (auto simp: remove_plugin_at_def split: option.splits)
  then show ?thesis
    by (simp add: unregister_def Let_def split: sum.splits)
qed

lemma set_blocked_nd [simp]: "needs_discovery (set_blocked s n b) = needs_discovery s"
  by (simp add: set_blocked_def Let_def)

lemma quiet_load_and_register:
  assumes nd: "\<not> needs_discovery s"
  shows "quiet (\<lambda>d. load_and_register d s loaded pn)"
proof (cases loaded)
  case (Inl e)
  then show ?thesis by (simp add: load_and_register_def quiet_const nd)
next
  case (Inr m)
  show ?thesis
  proof (cases "is_registered s m")
    case (Inl e)
    then show ?thesis using Inr by (simp add: load_and_register_def quiet_const nd)
  next
    case reg: (Inr b)
    show ?thesis
    proof (cases "b \<or> \<not> isclass_or_ismodule m")
      case True
      then show ?thesis using Inr reg by (cases b) (auto simp: load_and_register_def quiet_const nd)
    next
      case False
      then have "(\<lambda>d. load_and_register d s loaded pn) =
          (\<lambda>d. case register d s m pn of None \<Rightarrow> None
               | Some (s1, r) \<Rightarrow> (case r of Inl e \<Rightarrow> if is_plugin_error e then Some (s1, Inl e)
                        else Some (s1, Inl (PluginRegistrationError pn (Some e)))
                    | Inr x \<Rightarrow> Some (s1, Inr x)))"
        using Inr reg by (auto simp: load_and_register_def fun_eq_iff split: option.splits sum.splits)
      then show ?thesis
        by (simp only:) (intro quiet_bind[OF quiet_register[OF nd]] quiet_sum, simp_all add: quiet_const)
    qed
  qed
qed

lemma quiet_load_entrypoints_loop:
  "\<not> needs_discovery s \<Longrightarrow> quiet (\<lambda>d. load_entrypoints_loop d s g n ign eps c errs)"
proof (induction eps arbitrary: s c errs)
  case Nil
  then show ?case by (simp add: quiet_const)
next
  case (Cons ep eps)
  show ?case
    unfolding load_entrypoints_loop.simps
    apply (rule quiet_if)
     apply (rule Cons.IH[OF Cons.prems])
    apply (rule quiet_bind[OF quiet_load_and_register[OF Cons.prems]])
    subgoal for s' r
      apply (cases r)
       apply (simp only: sum.case Let_def)
       apply (intro quiet_if quiet_const Cons.IH; simp)
      apply (simp only: sum.case)
      apply (rule Cons.IH, assumption)
      done
    done
qed

lemma quiet_load_modules_loop:
  "\<not> needs_discovery s \<Longrightarrow> quiet (\<lambda>d. load_modules_loop d s p ign ms c errs)"
proof (induction ms arbitrary: s c errs)
  case Nil
  then show ?case by (simp add: quiet_const)
next
  case (Cons m ms)
  show ?case
    unfolding load_modules_loop.simps
    apply (rule quiet_if)
     apply (rule Cons.IH[OF Cons.prems])
    apply (rule quiet_if)
     apply (rule Cons.IH[OF Cons.prems])
    apply (rule quiet_bind[OF quiet_load_and_register[OF Cons.prems]])
    subgoal for s' r
      apply (cases r)
       apply (simp only: sum.case Let_def)
       apply (intro quiet_if quiet_const Cons.IH; simp)
      apply (simp only: sum.case)
      apply (rule Cons.IH, assumption)
      done
    done
qed

lemma quiet_load_entrypoints:
  "\<not> needs_discovery s \<Longrightarrow> quiet (\<lambda>d. load_entrypoints d env s g n ign)"
  unfolding load_entrypoints_def
  by (intro quiet_if quiet_const quiet_load_entrypoints_loop)

lemma quiet_load_modules_by_prefix:
  "\<not> needs_discovery s \<Longrightarrow> quiet (\<lambda>d. load_modules_by_prefix d env s p ign)"
  unfolding load_modules_by_prefix_def
  by (intro quiet_if quiet_const quiet_load_modules_loop)

lemma quiet_discover: "quiet (\<lambda>d. discover d env s ep pf ign)"
  unfolding discover_def Let_def
  apply (rule quiet_if)
   apply (simp add: quiet_const)
  apply (rule quiet_bind[OF quiet_load_entrypoints])
   apply simp
  apply (rule quiet_sum)
   apply (simp add: quiet_const)
  apply (simp add: split_def)
  apply (rule quiet_bind[OF quiet_load_modules_by_prefix])
   apply simp
  apply (rule quiet_sum)
   apply (simp_all add: quiet_const split_def)
  done

lemma quiet_transfer: "quiet f \<Longrightarrow> f d = Some x \<Longrightarrow> f d' = Some x \<and> \<not> needs_discovery (fst x)"
  by (auto simp: quiet_def)

section \<open>Lazy discovery through the relay\<close>

lemmas ex_defs = default_impl_opts_def default_spec_opts_def impl_method_def spec_method_def
  class_object_def Plugin1_def env_b_def init_manager_def no_discovery_def plain_object_def
  abc_registered_def

text \<open>
  C9. Reading an attribute of the relay calls the manager's discovery only while the
  flag is set: with the flag clear the read returns the relay's entry and leaves the
  manager as it is, whatever discovery would do. A discovery pass behaves as if
  started with the flag already clear, and it is quiet: every hook read made while it
  loads and registers plugins sees the flag clear, so the pass returns the same
  manager and result whatever a nested pass would do, even one that never returns.
  Hence one level of nesting is all a pass ever uses, and it returns.
\<close>

theorem discovery_runs_once:
  "(\<not> needs_discovery s \<longrightarrow> relay_getattr d s name = Some (s, Inr (relay_lookup s name)))
   \<and> (needs_discovery s \<and> name \<notin> {''_needs_discovery'', ''_manager''} \<longrightarrow> relay_trigger d s name = d s)
   \<and> discover d env s ep pf ign = discover d env (s\<lparr>needs_discovery := False\<rparr>) ep pf ign
   \<and> quiet (\<lambda>d'. discover d' env s ep pf ign)
   \<and> relay_discover (Suc n) env s = relay_discover (Suc 0) env s
   \<and> relay_discover (Suc n) env s \<noteq> None"
proof -
  from quiet_discover[of env s None None True]
  obtain s' r where eq: "\<And>d'. discover d' env s None None True = Some (s', r)"
    by (auto elim: quietE)
  have "relay_discover (Suc n) env s = relay_discover (Suc 0) env s"
    by (simp add: eq)
  moreover have "relay_discover (Suc n) env s \<noteq> None"
    by (simp add: eq split: sum.splits)
  moreover have "discover d env s ep pf ign = discover d env (s\<lparr>needs_discovery := False\<rparr>) ep pf ign"
    by (simp add: discover_def Let_def cong: option.case_cong if_cong)
  ultimately show ?thesis
    by (simp add: relay_getattr_clear relay_trigger_def quiet_discover)
qed

theorem discovery_runs_once_witness:
  "relay_getattr no_discovery (abc_registered\<lparr>needs_discovery := False\<rparr>) ''he_method1'' =
     Some (abc_registered\<lparr>needs_discovery := False\<rparr>, Inr Absent)
   \<and> relay_trigger (relay_discover (Suc 0) env_b) (init_manager ''grp'' []) ''he_method1'' =
       relay_discover (Suc 0) env_b (init_manager ''grp'' [])
   \<and> relay_discover (Suc (Suc 0)) env_b (init_manager ''grp'' []) =
       relay_discover (Suc 0) env_b (init_manager ''grp'' [])
   \<and> relay_discover (Suc (Suc 0)) env_b (init_manager ''grp'' []) \<noteq> None"
proof -
  let ?s = "abc_registered\<lparr>needs_discovery := False\<rparr>"
  let ?i = "init_manager ''grp'' []"
  have clear: "\<not> needs_discovery ?s" by simp
  have pending: "needs_discovery ?i \<and> ''he_method1'' \<notin> {''_needs_discovery'', ''_manager''}"
    by (simp add: init_manager_def)
  have empty: "relay_lookup ?s ''he_method1'' = Absent"
    by (simp add: relay_lookup_def relay_slots_def relay_attributes_def abc_registered_def
          init_manager_def)
  from discovery_runs_once [of ?s no_discovery "''he_method1''" env_b None None True 0] clear empty
  have "relay_getattr no_discovery ?s ''he_method1'' = Some (?s, Inr Absent)"
    by (simp del: relay_discover.simps)
  moreover
  from discovery_runs_once [of ?i "relay_discover (Suc 0) env_b" "''he_method1''" env_b None None True "Suc 0"]
    pending
  have "relay_trigger (relay_discover (Suc 0) env_b) ?i ''he_method1'' = relay_discover (Suc 0) env_b ?i
      \<and> relay_discover (Suc (Suc 0)) env_b ?i = relay_discover (Suc 0) env_b ?i
      \<and> relay_discover (Suc (Suc 0)) env_b ?i \<noteq> None"
    by blast
  ultimately show ?thesis by blast
qed

section \<open>Registering a dict\<close>

lemmas ident_defs = isidentifier_def identifier_start_def identifier_char_def

lemma map_fst_clean_dct: "map fst (clean_dct dct) = map fst (filter (\<lambda>(key, val). attr_isfunction val) dct)"
  by (induction dct) (auto simp: clean_dct_def)

lemma bad_keys_iff:
  "filter (\<lambda>k. \<not> isidentifier k) (map fst (clean_dct dct)) \<noteq> [] \<longleftrightarrow>
   (\<exists>(key, val) \<in> set dct. attr_isfunction val \<and> \<not> isidentifier key)"
  by (auto simp: map_fst_clean_dct filter_empty_conv)

lemma clean_dct_filter:
  "clean_dct (filter (\<lambda>(key, val). attr_isfunction val) dct) = clean_dct dct"
  by (induction dct) (auto simp: clean_dct_def)

text \<open>
  C7 (as amended). \<^verbatim>\<open>_register_dict\<close> first drops every item whose value is not a
  plain function (\<^verbatim>\<open>inspect.isfunction\<close>): registering a dict is registering the dict
  of its plain-function items. The dict is rejected, with the \<^verbatim>\<open>ValueError\<close> that lists
  the invalid keys and with the manager unchanged, if the key of a plain-function item is
  not a valid identifier.
\<close>

theorem register_dict_identifier_check:
  "register d s (DictNS i dct) name =
     register d s (DictNS i (filter (\<lambda>(key, val). attr_isfunction val) dct)) name
   \<and> ((\<exists>(key, val) \<in> set dct. attr_isfunction val \<and> \<not> isidentifier key) \<longrightarrow>
        register d s (DictNS i dct) name =
          Some (s, Inl (InvalidIdentifiers
                          (filter (\<lambda>k. \<not> isidentifier k)
                             (map fst (filter (\<lambda>(key, val). attr_isfunction val) dct))))))"
  using bad_keys_iff[of dct]
  by (simp add: register_def register_dict_def ensure_namespace_dict clean_dct_filter
        map_fst_clean_dct)

theorem register_dict_identifier_check_witness:
  "(\<exists>(key, val) \<in> set [(''not valid'', plain_function ''f'' []), (''valid'', plain_function ''g'' [])].
       attr_isfunction val \<and> \<not> isidentifier key)
   \<and> isidentifier ''valid'' \<and> isidentifier [CHR 0x63, CHR 0x61, CHR 0x66, CHR 0xE9]
   \<and> register no_discovery (init_manager [] [])
        (DictNS 7 [(''not valid'', plain_function ''f'' []), (''valid'', plain_function ''g'' [])]) None =
     Some (init_manager [] [], Inl (InvalidIdentifiers [''not valid'']))"
  using register_dict_identifier_check [of no_discovery "init_manager [] []" 7
          "[(''not valid'', plain_function ''f'' []), (''valid'', plain_function ''g'' [])]" None]
  by (simp add: ident_defs plain_function_def)

text \<open>
  The claim as stated fails: a dict whose only key is not an identifier is registered
  without error when the key's value is a callable that is not a plain function (a
  builtin such as \<^verbatim>\<open>len\<close>).
\<close>

theorem register_dict_builtin_key_counterexample:
  "\<not> isidentifier ''not valid'' \<and>
   register no_discovery (init_manager [] []) (DictNS 7 [(''not valid'', builtin_callable)]) None =
     Some ((init_manager [] [])\<lparr>plugin2hookcallers := [(7, [])], plugins := [(''orphan'', 7)]\<rparr>,
           Inr (Some ''orphan''))"
  by (simp add: ident_defs builtin_callable_def clean_dct_def register_def register_dict_def
        ensure_namespace_dict register_object_def plugin_name_of_def get_canonical_name_def
        is_blocked_def is_registered_name_def is_registered_object_def iter_implementations_def
        List.map_filter_def init_manager_def Let_def)

section \<open>A discovery pass returns\<close>

lemma load_and_register_plugin_error:
  "load_and_register d s loaded pn = Some (s', Inl e) \<Longrightarrow> is_plugin_error e"
  by (auto simp: load_and_register_def split: sum.splits bool.splits if_splits option.splits)

lemma load_entrypoints_loop_ignoring:
  "load_entrypoints_loop d s g n True eps c errs = Some (s', r) \<Longrightarrow> \<exists>x. r = Inr x"
proof (induction eps arbitrary: s c errs)
  case Nil
  then show ?case by auto
next
  case (Cons ep eps)
  then show ?case
    by (auto simp: Let_def split: if_splits option.splits sum.splits
          dest: load_and_register_plugin_error)
qed

lemma load_modules_loop_ignoring:
  "load_modules_loop d s p True ms c errs = Some (s', r) \<Longrightarrow> \<exists>x. r = Inr x"
proof (induction ms arbitrary: s c errs)
  case Nil
  then show ?case by auto
next
  case (Cons m ms)
  then show ?case
    by (auto simp: Let_def split: if_splits option.splits sum.splits
          dest: load_and_register_plugin_error)
qed

lemma discover_ignoring:
  "discover d env s ep pf True = Some (s', r) \<Longrightarrow> \<exists>x. r = Inr x"
  by (auto simp: discover_def Let_def load_entrypoints_def load_modules_by_prefix_def
        split: if_splits option.splits sum.splits prod.splits
        dest: load_entrypoints_loop_ignoring load_modules_loop_ignoring)

lemma relay_discover_returns:
  "\<exists>s'. relay_discover (Suc n) env s = Some (s', Inr ()) \<and> \<not> needs_discovery s'"
proof -
  from quiet_discover[of env s None None True]
  obtain s' r where nd: "\<not> needs_discovery s'" and eq: "\<And>d'. discover d' env s None None True = Some (s', r)"
    by (auto elim: quietE)
  from discover_ignoring[OF eq] obtain x where "r = Inr x" by blast
  then show ?thesis using nd eq by simp
qed

lemma relay_trigger_returns:
  "name \<notin> {''_needs_discovery'', ''_manager''} \<Longrightarrow>
   \<exists>s0. relay_trigger (relay_discover (Suc n) env) s name = Some (s0, Inr ()) \<and> \<not> needs_discovery s0"
  using relay_discover_returns[of n env s]
  by (auto simp: relay_trigger_def simp del: relay_discover.simps)

section \<open>The pending-hook audit\<close>

lemmas op_defs = relay_trigger_def relay_getattr_def register_hookimpl_def attach_hookimpl_def
  bind_hookspec_def verify_hooks.simps register_object_def register_def
  plugin_name_of_def get_canonical_name_def is_blocked_def is_registered_name_def is_registered_object_def
  iter_implementations_def HookImplementation_def new_hook_caller_def add_hookimpl_def insert_hookimpl_def
  set_hook_def has_spec_def is_historic_def verify_hook_def maybe_apply_history_def get_hookimpls_def
  load_and_register_def is_registered_def isclass_or_ismodule_def truthy_def load_entrypoints_def
  load_modules_by_prefix_def discover_def set_blocked_def unregister_def ensure_plugin_def get_name_def
  check_pending_def add_hookspec_def add_hookspecs_def set_specification_def HookSpecification_def
  new_hook_caller_spec_def remove_plugin_at_def remove_plugin_def
  relay_lookup_def relay_slots_def relay_attributes_def
  List.map_filter_def Let_def

lemmas ex2_defs = env_none_def PluginHidden_def PluginUnknown_def hidden_impl_def hidden_caller_def
  hidden_registered_def unknown_impl_def unknown_registered_def

lemma check_pending_loop_result:
  assumes "\<not> needs_discovery s"
  shows "set names \<subseteq> fst ` set (hook s) \<Longrightarrow>
    \<exists>r. check_pending_loop d s names = Some (s, r) \<and>
      (case r of
         Inl e \<Rightarrow> \<exists>name\<in>set names. \<exists>h. unknown_nonoptional s name h \<and>
                    e = PluginValidationError (impl_plugin h) (impl_plugin_name h) name UnknownHook
       | Inr u \<Rightarrow> \<forall>name\<in>set names. \<forall>h. \<not> unknown_nonoptional s name h)"
proof (induction names)
  case Nil
  then show ?case by simp
next
  case (Cons name names)
  from Cons.prems obtain hc where hc: "map_of (hook s) name = Some hc"
    by (metis list.set_intros(1) subsetD weak_map_of_SomeI map_of_eq_None_iff not_None_eq)
  from Cons obtain r where r: "check_pending_loop d s names = Some (s, r)"
    and rr: "(case r of
         Inl e \<Rightarrow> \<exists>name\<in>set names. \<exists>h. unknown_nonoptional s name h \<and>
                    e = PluginValidationError (impl_plugin h) (impl_plugin_name h) name UnknownHook
       | Inr u \<Rightarrow> \<forall>name\<in>set names. \<forall>h. \<not> unknown_nonoptional s name h)"
    by auto
  show ?case
  proof (cases "take 1 name = ''_''")
    case True
    then have "\<forall>h. \<not> unknown_nonoptional s name h" by (simp add: unknown_nonoptional_def)
    then show ?thesis using True r rr by (cases r) auto
  next
    case False
    show ?thesis
    proof (cases "\<not> has_spec hc \<and> find (\<lambda>h. \<not> impl_optionalhook h) (get_hookimpls hc) \<noteq> None")
      case True
      then obtain h where h: "find (\<lambda>h. \<not> impl_optionalhook h) (get_hookimpls hc) = Some h" by blast
      then have "h \<in> set (get_hookimpls hc) \<and> \<not> impl_optionalhook h"
        by (auto simp: find_Some_iff)
      then have "unknown_nonoptional s name h"
        using False hc True by (simp add: unknown_nonoptional_def)
      then show ?thesis
        using False hc True h assms
        by (auto simp: relay_getattr_clear relay_lookup_caller[OF hc relay_slots_underscore[OF False]])
    next
      case nooff: False
      then have "\<forall>h. \<not> unknown_nonoptional s name h"
        using hc by (auto simp: unknown_nonoptional_def find_None_iff)
      moreover have "check_pending_loop d s (name # names) = check_pending_loop d s names"
        using False hc nooff assms
        by (auto simp: relay_getattr_clear relay_lookup_caller[OF hc relay_slots_underscore[OF False]])
      ultimately show ?thesis using r rr by (cases r) auto
    qed
  qed
qed

text \<open>
  C8 (as amended). \<^verbatim>\<open>check_pending\<close> first reads the relay, which runs the discovery
  pass when one is pending. On the manager after that read it raises a validation
  failure, naming the plugin and the hook of an implementation, exactly when some
  caller whose name does not start with an underscore has no specification and holds
  an implementation that is not optional; otherwise it returns normally and leaves
  the manager as the read left it.
\<close>

theorem check_pending_result:
  "\<exists>s0 r. relay_trigger (relay_discover (Suc n) env) s ''__dict__'' = Some (s0, Inr ())
     \<and> check_pending (relay_discover (Suc n) env) s = Some (s0, r)
     \<and> (case r of
          Inl e \<Rightarrow> \<exists>name h. unknown_nonoptional s0 name h \<and>
                     e = PluginValidationError (impl_plugin h) (impl_plugin_name h) name UnknownHook
        | Inr u \<Rightarrow> \<forall>name h. \<not> unknown_nonoptional s0 name h)"
proof -
  from relay_trigger_returns[of "''__dict__''" n env s]
  obtain s0 where t: "relay_trigger (relay_discover (Suc n) env) s ''__dict__'' = Some (s0, Inr ())"
    and nd: "\<not> needs_discovery s0" by auto
  from check_pending_loop_result[OF nd, of "map fst (hook s0)" "relay_discover (Suc n) env"]
  obtain r where r: "check_pending_loop (relay_discover (Suc n) env) s0 (map fst (hook s0)) = Some (s0, r)"
    and rr: "(case r of
         Inl e \<Rightarrow> \<exists>name\<in>set (map fst (hook s0)). \<exists>h. unknown_nonoptional s0 name h \<and>
                    e = PluginValidationError (impl_plugin h) (impl_plugin_name h) name UnknownHook
       | Inr u \<Rightarrow> \<forall>name\<in>set (map fst (hook s0)). \<forall>h. \<not> unknown_nonoptional s0 name h)"
    by auto
  have dom: "unknown_nonoptional s0 name h \<Longrightarrow> name \<in> set (map fst (hook s0))" for name h
    by (force simp: unknown_nonoptional_def split: option.splits dest: map_of_SomeD)
  have "check_pending (relay_discover (Suc n) env) s = Some (s0, r)"
    using t r by (simp add: check_pending_def del: relay_discover.simps)
  moreover have "(case r of
          Inl e \<Rightarrow> \<exists>name h. unknown_nonoptional s0 name h \<and>
                     e = PluginValidationError (impl_plugin h) (impl_plugin_name h) name UnknownHook
        | Inr u \<Rightarrow> \<forall>name h. \<not> unknown_nonoptional s0 name h)"
  proof (cases r)
    case (Inl e)
    then show ?thesis using rr by auto
  next
    case (Inr u)
    with rr have "\<forall>name\<in>set (map fst (hook s0)). \<forall>h. \<not> unknown_nonoptional s0 name h" by simp
    with dom have "\<forall>name h. \<not> unknown_nonoptional s0 name h" by blast
    then show ?thesis using Inr by simp
  qed
  ultimately show ?thesis using t by blast
qed

theorem check_pending_result_witness:
  "register (relay_discover (Suc 0) env_none) (init_manager [] []) (ObjNS PluginUnknown) None =
     Some (unknown_registered, Inr (Some ''PluginUnknown''))
   \<and> check_pending (relay_discover (Suc 0) env_none) unknown_registered =
     Some (unknown_registered,
           Inl (PluginValidationError 3 (Some ''PluginUnknown'') ''he_method_notexists'' UnknownHook))"
  using check_pending_result [of 0 env_none unknown_registered]
  by (simp add: ex_defs ex2_defs op_defs)

text \<open>
  The claim as stated fails: a caller whose name starts with an underscore is skipped,
  so a caller without a specification that holds a non-optional implementation does
  not make \<^verbatim>\<open>check_pending\<close> raise.
\<close>

theorem check_pending_underscore_counterexample:
  "register (relay_discover (Suc 0) env_none) (init_manager [] []) (ObjNS PluginHidden) None =
     Some (hidden_registered, Inr (Some ''PluginHidden''))
   \<and> map_of (hook hidden_registered) ''_hidden'' = Some hidden_caller
   \<and> \<not> has_spec hidden_caller
   \<and> hidden_impl \<in> set (get_hookimpls hidden_caller)
   \<and> \<not> impl_optionalhook hidden_impl
   \<and> check_pending (relay_discover (Suc 0) env_none) hidden_registered =
       Some (hidden_registered, Inr ())"
  by (simp add: ex_defs ex2_defs op_defs)

section \<open>Loading discovered plugins\<close>

lemma is_blocked_set_blocked: "is_blocked (set_blocked s name True) name"
proof -
  have "blocked (fold (remove_plugin_at p) ns s0) = blocked s0" for p ns s0
    by (induction ns arbitrary: s0) (auto simp: remove_plugin_at_def set_hook_def split: option.splits)
  then have "blocked (fst (unregister s0 k)) = blocked s0" for s0 k
    by (simp add: unregister_def Let_def split: sum.splits)
  then show ?thesis
    by (simp add: set_blocked_def is_blocked_def Let_def)
qed

lemma load_entrypoints_loop_errors:
  "load_entrypoints_loop d s g n ign eps c errs = Some (s', Inr (c', errs')) \<Longrightarrow>
   \<exists>more. errs' = errs @ more"
proof (induction eps arbitrary: s c errs)
  case Nil
  then show ?case by simp
next
  case (Cons ep eps)
  then show ?case
    by (fastforce simp: Let_def split: if_splits option.splits sum.splits prod.splits)
qed

lemma load_modules_loop_errors:
  "load_modules_loop d s p ign ms c errs = Some (s', Inr (c', errs')) \<Longrightarrow>
   \<exists>more. errs' = errs @ more"
proof (induction ms arbitrary: s c errs)
  case Nil
  then show ?case by simp
next
  case (Cons m ms)
  then show ?case
    by (fastforce simp: Let_def split: if_splits option.splits sum.splits prod.splits)
qed

text \<open>Every operation returns when the discovery function it is given does.\<close>

lemma blocked_unregister [simp]: "blocked (fst (unregister s k)) = blocked s"
proof -
  have "blocked (fold (remove_plugin_at p) ns s0) = blocked s0" for p ns s0
    by (induction ns arbitrary: s0) (auto simp: remove_plugin_at_def set_hook_def split: option.splits)
  then show ?thesis
    by (simp add: unregister_def Let_def split: sum.splits)
qed

lemma blocked_set_blocked [simp]: "blocked (set_blocked s name True) = insert name (blocked s)"
  by (simp add: set_blocked_def Let_def)















section \<open>The validation invariant is kept\<close>

lemma set_insert_hookimpl [simp]: "set (insert_hookimpl h hs) = insert h (set hs)"
proof -
  have "set (takeWhile P hs) \<union> set (dropWhile P hs) = set hs" for P
    by (metis set_append takeWhile_dropWhile_id)
  then show ?thesis
    by (cases "impl_priority h") (auto simp: insert_hookimpl_def)
qed

lemma caller_valid_add_hookimpl:
  "caller_valid X hc \<Longrightarrow> (\<And>sp. hc_spec hc = Some sp \<Longrightarrow> impl_fits sp h) \<Longrightarrow>
   caller_valid X (add_hookimpl hc h)"
  by (auto simp: caller_valid_def add_hookimpl_def list_all_iff split: option.splits)

lemma caller_valid_new [simp]: "caller_valid X (new_hook_caller name)"
  by (simp add: caller_valid_def new_hook_caller_def)

lemma caller_valid_remove_plugin: "caller_valid X hc \<Longrightarrow> caller_valid X (remove_plugin hc p)"
  by (auto simp: caller_valid_def remove_plugin_def list_all_iff split: option.splits)

lemma set_update_subset: "set (AList.update k v al) \<subseteq> insert (k, v) (set al)"
  by (induction al) auto

lemma registry_valid_set_hook:
  "registry_valid X s \<Longrightarrow> caller_valid X hc \<Longrightarrow> registry_valid X (set_hook s name hc)"
  using set_update_subset[of name hc "hook s"]
  by (auto simp: registry_valid_def set_hook_def list_all_iff)

lemma registry_valid_lookup:
  "registry_valid X s \<Longrightarrow> map_of (hook s) name = Some hc \<Longrightarrow> caller_valid X hc"
  by (auto simp: registry_valid_def list_all_iff dest: map_of_SomeD)

lemma verify_hook_hook: "verify_hook s hc h = (s', r) \<Longrightarrow> hook s' = hook s"
  by (drule verify_hook_frame, erule ssubst) simp

lemma maybe_apply_history_hook: "maybe_apply_history s hc h = (s', r) \<Longrightarrow> hook s' = hook s"
  by (drule maybe_apply_history_frame, erule ssubst) simp

lemma verify_hook_fits:
  "verify_hook s hc h = (s', Inr u) \<Longrightarrow> hc_spec hc = Some sp \<Longrightarrow> impl_fits sp h"
  by (auto simp: verify_hook_def Let_def impl_fits_def split: if_splits)

lemma relay_trigger_valid:
  "keeps_valid X d \<Longrightarrow> registry_valid X s \<Longrightarrow> relay_trigger d s name = Some (s1, r) \<Longrightarrow>
   registry_valid X s1"
  by (auto simp: relay_trigger_def keeps_valid_def split: if_splits)

lemma relay_getattr_valid:
  assumes "keeps_valid X d" "registry_valid X s" "relay_getattr d s name = Some (s1, r)"
  shows "registry_valid X s1 \<and> (\<forall>hc. r = Inr (Caller hc) \<longrightarrow> caller_valid X hc)"
proof -
  from assms(3) obtain r0 where t: "relay_trigger d s name = Some (s1, r0)"
    and r: "r = (case r0 of Inl e \<Rightarrow> Inl e | Inr u \<Rightarrow> Inr (relay_lookup s1 name))"
    by (cases "relay_trigger d s name") (auto simp: relay_getattr_def split: sum.splits)
  from relay_trigger_valid[OF assms(1,2) t] have v: "registry_valid X s1" .
  then show ?thesis using r
    by (auto split: sum.splits dest: relay_lookup_CallerD registry_valid_lookup)
qed

lemma attach_hookimpl_valid:
  assumes s: "registry_valid X s" and f: "\<And>hc. found = Caller hc \<Longrightarrow> caller_valid X hc"
    and r: "attach_hookimpl s h found = (s', r)"
  shows "registry_valid X s'"
proof (cases found)
  case Absent
  have "caller_valid X (add_hookimpl (new_hook_caller (impl_specname h)) h)"
    by (rule caller_valid_add_hookimpl) (simp_all add: new_hook_caller_def caller_valid_def)
  then show ?thesis using r Absent s
    by (auto simp: attach_hookimpl_def Let_def intro: registry_valid_set_hook)
next
  case Other
  then show ?thesis using r s by (simp add: attach_hookimpl_def Let_def)
next
  case (Caller hc)
  have cv: "caller_valid X hc" using f Caller by simp
  show ?thesis
  proof (cases "has_spec hc")
    case False
    then have "caller_valid X (add_hookimpl hc h)"
      using cv by (auto intro: caller_valid_add_hookimpl simp: has_spec_def)
    then show ?thesis using r Caller False s
      by (auto simp: attach_hookimpl_def Let_def intro: registry_valid_set_hook)
  next
    case True
    obtain s2 r2 where vh: "verify_hook s hc h = (s2, r2)" by fastforce
    have v2: "registry_valid X s2" using s by (simp add: registry_valid_def verify_hook_hook[OF vh])
    show ?thesis
    proof (cases r2)
      case (Inl e)
      then show ?thesis using r Caller True vh v2 by (simp add: attach_hookimpl_def Let_def)
    next
      case r2: (Inr u)
      obtain s3 r3 where mh: "maybe_apply_history s2 hc h = (s3, r3)" by fastforce
      have v3: "registry_valid X s3"
        using v2 by (simp add: registry_valid_def maybe_apply_history_hook[OF mh])
      have "caller_valid X (add_hookimpl hc h)"
        using cv verify_hook_fits[OF vh[unfolded r2]] by (auto intro: caller_valid_add_hookimpl)
      then have "registry_valid X (set_hook s3 (impl_specname h) (add_hookimpl hc h))"
        using v3 by (rule registry_valid_set_hook[rotated])
      then show ?thesis using r Caller True vh r2 mh v3
        by (cases r3) (simp_all add: attach_hookimpl_def Let_def)
    qed
  qed
qed

lemma register_hookimpl_valid:
  assumes d: "keeps_valid X d" and s: "registry_valid X s"
    and r: "register_hookimpl d pn s h = Some (s', r)"
  shows "registry_valid X s'"
proof -
  from r obtain s1 g where g: "relay_getattr d s (impl_specname h) = Some (s1, g)"
    by (cases "relay_getattr d s (impl_specname h)") (auto simp: register_hookimpl_def Let_def)
  from relay_getattr_valid[OF d s g] have v1: "registry_valid X s1"
    and vc: "\<And>hc. g = Inr (Caller hc) \<Longrightarrow> caller_valid X hc" by auto
  show ?thesis
  proof (cases g)
    case (Inl e)
    then show ?thesis using r g v1 by (simp add: register_hookimpl_def Let_def)
  next
    case (Inr found)
    with r g have "attach_hookimpl s1 (h\<lparr>impl_plugin_name := Some pn\<rparr>) found = (s', r)"
      by (simp add: register_hookimpl_def Let_def)
    from attach_hookimpl_valid[OF v1 _ this] vc Inr show ?thesis by simp
  qed
qed

lemma register_impls_valid:
  "keeps_valid X d \<Longrightarrow> registry_valid X s \<Longrightarrow> register_impls d pn s hs acc = Some (s', r) \<Longrightarrow>
   registry_valid X s'"
proof (induction hs arbitrary: s acc)
  case Nil
  then show ?case by simp
next
  case (Cons h hs)
  from Cons.prems(3) obtain s1 r1 where h: "register_hookimpl d pn s h = Some (s1, r1)"
    by (cases "register_hookimpl d pn s h") auto
  from register_hookimpl_valid[OF Cons.prems(1,2) h] have v1: "registry_valid X s1" .
  show ?case
  proof (cases r1)
    case (Inl e)
    then show ?thesis using Cons.prems(3) h v1 by simp
  next
    case (Inr n)
    then show ?thesis using Cons.prems(3) h by (auto intro: Cons.IH[OF Cons.prems(1) v1])
  qed
qed

lemma registry_valid_tables [simp]:
  "registry_valid X (s\<lparr>plugin2hookcallers := a, plugins := b\<rparr>) = registry_valid X s"
  "registry_valid X (s\<lparr>plugins := b\<rparr>) = registry_valid X s"
  "registry_valid X (s\<lparr>plugin2hookcallers := a\<rparr>) = registry_valid X s"
  "registry_valid X (s\<lparr>blocked := c\<rparr>) = registry_valid X s"
  "registry_valid X (s\<lparr>emitted := w\<rparr>) = registry_valid X s"
  "registry_valid X (s\<lparr>needs_discovery := f\<rparr>) = registry_valid X s"
  by (simp_all add: registry_valid_def)

lemma register_object_valid:
  assumes "keeps_valid X d" "registry_valid X s" "register_object d s obj name = Some (s', r)"
  shows "registry_valid X s'"
proof (cases "is_blocked s (plugin_name_of obj name) \<or> is_registered_name s (plugin_name_of obj name)
    \<or> \<not> obj_hashable obj \<or> is_registered_object s (obj_id obj)")
  case True
  then show ?thesis using assms by (auto simp: register_object_def Let_def split: if_splits)
next
  case False
  with assms(3) obtain s1 r1 where
    l: "register_impls d (plugin_name_of obj name) s (iter_implementations obj) [] = Some (s1, r1)"
    by (auto simp: register_object_def Let_def split: option.splits)
  from register_impls_valid[OF assms(1,2) l] have "registry_valid X s1" .
  then show ?thesis using assms(3) False l
    by (cases r1) (auto simp: register_object_def Let_def)
qed

lemma register_valid:
  assumes "keeps_valid X d" "registry_valid X s" "register d s ns name = Some (s', r)"
  shows "registry_valid X s'"
proof (cases ns)
  case (StrNS x)
  then show ?thesis using assms by (simp add: register_def)
next
  case (DictNS i dct)
  then show ?thesis using assms
    by (simp add: register_def register_dict_def ensure_namespace_dict split: if_splits)
       (erule register_object_valid[OF assms(1,2)])
next
  case (ObjNS obj)
  then show ?thesis using assms by (simp add: register_def) (erule register_object_valid[OF assms(1,2)])
qed

lemma remove_plugin_at_valid: "registry_valid X s \<Longrightarrow> registry_valid X (remove_plugin_at p n s)"
  by (auto simp: remove_plugin_at_def split: option.splits
        intro: registry_valid_set_hook caller_valid_remove_plugin dest: registry_valid_lookup)

lemma fold_remove_plugin_at_valid:
  "registry_valid X s \<Longrightarrow> registry_valid X (fold (remove_plugin_at p) ns s)"
  by (induction ns arbitrary: s) (auto intro: remove_plugin_at_valid)

lemma unregister_valid: "registry_valid X s \<Longrightarrow> registry_valid X (fst (unregister s k))"
  by (cases "ensure_plugin s k")
     (simp_all add: unregister_def Let_def fold_remove_plugin_at_valid)

lemma set_blocked_valid: "registry_valid X s \<Longrightarrow> registry_valid X (set_blocked s n b)"
  by (simp add: set_blocked_def Let_def unregister_valid)

lemma load_and_register_valid:
  assumes "keeps_valid X d" "registry_valid X s" "load_and_register d s loaded pn = Some (s', r)"
  shows "registry_valid X s'"
proof (cases "\<exists>m. loaded = Inr m \<and> is_registered s m = Inr False \<and> isclass_or_ismodule m")
  case True
  then obtain m where m: "loaded = Inr m" "is_registered s m = Inr False" "isclass_or_ismodule m" by blast
  with assms(3) obtain s1 r1 where reg: "register d s m pn = Some (s1, r1)" and s': "s' = s1"
    by (cases "register d s m pn") (auto simp: load_and_register_def split: sum.splits if_splits)
  from register_valid[OF assms(1,2) reg] s' show ?thesis by simp
next
  case False
  then have "s' = s"
    using assms(3)
    by (cases loaded; cases "is_registered s (projr loaded)")
       (auto simp: load_and_register_def split: bool.splits if_splits)
  then show ?thesis using assms(2) by simp
qed

lemma load_entrypoints_loop_valid:
  "keeps_valid X d \<Longrightarrow> registry_valid X s \<Longrightarrow>
   load_entrypoints_loop d s g n ign eps c errs = Some (s', r) \<Longrightarrow> registry_valid X s'"
proof (induction eps arbitrary: s c errs)
  case Nil
  then show ?case by simp
next
  case (Cons ep eps)
  show ?case
  proof (cases "ep_group ep \<noteq> g \<or> (n \<noteq> [] \<and> ep_name ep \<noteq> n)
         \<or> is_registered_name s (ep_name ep) \<or> is_blocked s (ep_name ep)")
    case True
    then show ?thesis using Cons by simp
  next
    case False
    with Cons.prems(3) obtain s1 r1 where
      l: "load_and_register d s (ep_load ep) (Some (ep_name ep)) = Some (s1, r1)"
      by (cases "load_and_register d s (ep_load ep) (Some (ep_name ep))") auto
    from load_and_register_valid[OF Cons.prems(1,2) l] have v1: "registry_valid X s1" .
    then have v2: "registry_valid X (set_blocked s1 (ep_name ep) True)" by (rule set_blocked_valid)
    show ?thesis
      using Cons.prems(3) False l Cons.IH[OF Cons.prems(1) v1] Cons.IH[OF Cons.prems(1) v2] v1 v2
      by (cases r1) (auto simp: Let_def split: if_splits)
  qed
qed

lemma load_modules_loop_valid:
  "keeps_valid X d \<Longrightarrow> registry_valid X s \<Longrightarrow>
   load_modules_loop d s p ign ms c errs = Some (s', r) \<Longrightarrow> registry_valid X s'"
proof (induction ms arbitrary: s c errs)
  case Nil
  then show ?case by simp
next
  case (Cons m ms)
  show ?case
  proof (cases "take (length p) (mod_name m) \<noteq> p
         \<or> is_registered_name s (display_name m) \<or> is_blocked s (display_name m)")
    case True
    then show ?thesis using Cons by (auto split: if_splits)
  next
    case False
    with Cons.prems(3) obtain s1 r1 where
      l: "load_and_register d s (mod_import m) (Some (display_name m)) = Some (s1, r1)"
      by (cases "load_and_register d s (mod_import m) (Some (display_name m))") auto
    from load_and_register_valid[OF Cons.prems(1,2) l] have v1: "registry_valid X s1" .
    then have v2: "registry_valid X (set_blocked s1 (display_name m) True)" by (rule set_blocked_valid)
    show ?thesis
      using Cons.prems(3) False l Cons.IH[OF Cons.prems(1) v1] Cons.IH[OF Cons.prems(1) v2] v1 v2
      by (cases r1) (auto simp: Let_def split: if_splits)
  qed
qed

lemma discover_valid:
  assumes "keeps_valid X d" "registry_valid X s" "discover d env s ep pf ign = Some (s', r)"
  shows "registry_valid X s'"
proof (cases "env_disable_all env")
  case True
  then show ?thesis using assms by (auto simp: discover_def Let_def)
next
  case False
  let ?s0 = "s\<lparr>needs_discovery := False\<rparr>"
  let ?ep = "case ep of None \<Rightarrow> discover_entry_point s | Some e \<Rightarrow> if e = [] then discover_entry_point s else e"
  let ?pf = "case pf of None \<Rightarrow> discover_prefix s | Some p \<Rightarrow> if p = [] then discover_prefix s else p"
  have v0: "registry_valid X ?s0" using assms(2) by simp
  from assms(3) False obtain s1 r1 where
    l1: "load_entrypoints d env ?s0 ?ep [] ign = Some (s1, r1)"
    by (cases "load_entrypoints d env ?s0 ?ep [] ign") (auto simp: discover_def Let_def)
  have v1: "registry_valid X s1"
    using l1 v0 load_entrypoints_loop_valid[OF assms(1) v0]
    by (auto simp: load_entrypoints_def split: if_splits)
  show ?thesis
  proof (cases r1)
    case (Inl e)
    then show ?thesis using assms(3) False l1 v1 by (simp add: discover_def Let_def)
  next
    case (Inr x)
    with assms(3) False l1 obtain s2 r2 where
      l2: "load_modules_by_prefix d env s1 ?pf ign = Some (s2, r2)" and s': "s' = s2"
      by (cases "load_modules_by_prefix d env s1 ?pf ign")
         (auto simp: discover_def Let_def split: prod.splits sum.splits)
    have "registry_valid X s2"
      using l2 v1 load_modules_loop_valid[OF assms(1) v1]
      by (auto simp: load_modules_by_prefix_def split: if_splits)
    then show ?thesis using s' by simp
  qed
qed

lemma keeps_valid_relay_discover: "keeps_valid X (relay_discover n env)"
proof (induction n)
  case 0
  then show ?case by (simp add: keeps_valid_def)
next
  case (Suc n)
  show ?case
    unfolding keeps_valid_def
  proof (intro allI impI)
    fix s s' r
    assume a: "relay_discover (Suc n) env s = Some (s', r)" and v: "registry_valid X s"
    then obtain r0 where "discover (relay_discover n env) env s None None True = Some (s', r0)"
      by (cases "discover (relay_discover n env) env s None None True")
         (auto split: sum.splits)
    from discover_valid[OF Suc v this] show "registry_valid X s'" .
  qed
qed

lemma verify_hooks_hook: "verify_hooks s hc hs = (s', r) \<Longrightarrow> hook s' = hook s"
proof (induction hs arbitrary: s)
  case Nil
  then show ?case by simp
next
  case (Cons h hs)
  obtain s1 r1 where v: "verify_hook s hc h = (s1, r1)" by fastforce
  show ?case
    using Cons.prems v verify_hook_hook[OF v] Cons.IH[of s1]
    by (cases r1) auto
qed

lemma verify_hooks_fits:
  "verify_hooks s hc hs = (s', Inr u) \<Longrightarrow> hc_spec hc = Some sp \<Longrightarrow> list_all (impl_fits sp) hs"
proof (induction hs arbitrary: s)
  case Nil
  then show ?case by simp
next
  case (Cons h hs)
  obtain s1 r1 where v: "verify_hook s hc h = (s1, r1)" by fastforce
  show ?case
    using Cons.prems v Cons.IH[of s1] verify_hook_fits[of s hc h s1 _ sp]
    by (cases r1) auto
qed

lemma verify_hook_error: "verify_hook s hc h = (s', Inl e) \<Longrightarrow> is_validation_error e"
  by (auto simp: verify_hook_def Let_def split: if_splits option.splits)

lemma verify_hook_error_names:
  "verify_hook s hc h = (s', Inl e) \<Longrightarrow>
   \<exists>reason. e = PluginValidationError (impl_plugin h) (impl_plugin_name h) (hc_name hc) reason"
  by (auto simp: verify_hook_def Let_def split: if_splits option.splits)

lemma verify_hooks_error: "verify_hooks s hc hs = (s', Inl e) \<Longrightarrow> is_validation_error e"
proof (induction hs arbitrary: s)
  case Nil
  then show ?case by simp
next
  case (Cons h hs)
  obtain s1 r1 where v: "verify_hook s hc h = (s1, r1)" by fastforce
  show ?case
    using Cons.prems v Cons.IH[of s1] verify_hook_error[of s hc h s1]
    by (cases r1) auto
qed


lemma verify_hooks_error_names:
  "verify_hooks s hc hs = (s', Inl e) \<Longrightarrow>
   \<exists>h\<in>set hs. \<exists>reason.
      e = PluginValidationError (impl_plugin h) (impl_plugin_name h) (hc_name hc) reason"
proof (induction hs arbitrary: s)
  case Nil
  then show ?case by simp
next
  case (Cons h hs)
  obtain s1 r1 where v: "verify_hook s hc h = (s1, r1)" by fastforce
  show ?case
    using Cons.prems v Cons.IH[of s1] verify_hook_error_names[of s hc h s1]
    by (cases r1) auto
qed

lemma caller_valid_mono: "X \<subseteq> Y \<Longrightarrow> caller_valid X hc \<Longrightarrow> caller_valid Y hc"
  by (auto simp: caller_valid_def list_all_iff split: option.splits)

lemma registry_valid_mono: "X \<subseteq> Y \<Longrightarrow> registry_valid X s \<Longrightarrow> registry_valid Y s"
  by (auto simp: registry_valid_def list_all_iff intro: caller_valid_mono)

lemma left_unverified_other [simp]: "\<not> is_validation_error e \<Longrightarrow> left_unverified s e = {}"
  by (cases e) (simp_all add: left_unverified_def)

lemma mem_update: "(k, v) \<in> set (AList.update k v al)"
  by (induction al) auto

text \<open>
  Binding a specification keeps the registry valid when the implementations that a
  raised verification leaves unverified are left aside.
\<close>

lemma bind_hookspec_valid:
  assumes s: "registry_valid X s1" and b: "bind_hookspec s1 name meth opts found = (s', r)"
  shows "registry_valid (X \<union> exempt_after s' r) s'"
proof (cases found)
  case Absent
  have "caller_valid X (new_hook_caller_spec name meth opts)"
    by (simp add: caller_valid_def new_hook_caller_spec_def new_hook_caller_def)
  then show ?thesis using b Absent s
    by (auto simp: bind_hookspec_def exempt_after_def intro: registry_valid_set_hook)
next
  case Other
  then show ?thesis using b s by (auto simp: bind_hookspec_def exempt_after_def)
next
  case (Caller hc0)
  show ?thesis
  proof (cases "has_spec hc0")
    case True
    then show ?thesis using b Caller s
      by (auto simp: bind_hookspec_def set_specification_def exempt_after_def)
  next
    case False
    let ?hc = "hc0\<lparr>hc_spec := Some (HookSpecification meth opts)\<rparr>"
    from b Caller False have v: "verify_hooks (set_hook s1 name ?hc) ?hc (get_hookimpls ?hc) = (s', r)"
      by (simp add: bind_hookspec_def set_specification_def)
    have hk: "hook s' = AList.update name ?hc (hook s1)"
      using verify_hooks_hook[OF v] by (simp add: set_hook_def)
    show ?thesis
    proof (cases r)
      case (Inl e)
      from verify_hooks_error_names[OF v[unfolded Inl]] obtain p pn reason where
        e: "e = PluginValidationError p pn (hc_name hc0) reason" by auto
      have "set (hc_hookimpls ?hc) \<subseteq> left_unverified s' e"
        using mem_update[of name ?hc "hook s1"]
        by (auto simp: left_unverified_def e hk intro!: bexI[of _ "(name, ?hc)"])
      then have "caller_valid (X \<union> left_unverified s' e) ?hc"
        by (auto simp: caller_valid_def list_all_iff)
      moreover have "registry_valid (X \<union> left_unverified s' e) s1"
        using s by (rule registry_valid_mono[rotated]) simp
      ultimately have "registry_valid (X \<union> left_unverified s' e) (set_hook s1 name ?hc)"
        by (rule registry_valid_set_hook[rotated])
      then show ?thesis using Inl
        by (simp add: registry_valid_def exempt_after_def hk set_hook_def)
    next
      case (Inr u)
      from verify_hooks_fits[OF v[unfolded Inr], of "HookSpecification meth opts"]
      have "caller_valid X ?hc" by (simp add: caller_valid_def get_hookimpls_def list_all_iff)
      with s have "registry_valid X (set_hook s1 name ?hc)" by (rule registry_valid_set_hook)
      then show ?thesis using Inr
        by (simp add: registry_valid_def exempt_after_def hk set_hook_def)
    qed
  qed
qed

lemma add_hookspec_valid:
  assumes d: "keeps_valid X d" and s: "registry_valid X s"
    and a: "add_hookspec d s name meth opts = Some (s', r)"
  shows "registry_valid (X \<union> exempt_after s' r) s'"
proof -
  from a obtain s1 g where g: "relay_getattr d s name = Some (s1, g)"
    by (cases "relay_getattr d s name") (auto simp: add_hookspec_def)
  from relay_getattr_valid[OF d s g] have v1: "registry_valid X s1" by simp
  show ?thesis
  proof (cases g)
    case (Inl e)
    then have "s' = s1" "r = Inl e" using a g by (simp_all add: add_hookspec_def)
    then show ?thesis using v1 by (auto intro: registry_valid_mono[rotated])
  next
    case (Inr found)
    with a g have "bind_hookspec s1 name meth opts found = (s', r)" by (simp add: add_hookspec_def)
    from bind_hookspec_valid[OF v1 this] show ?thesis .
  qed
qed

lemma add_hookspecs_loop_valid:
  "keeps_valid X d \<Longrightarrow> registry_valid X s \<Longrightarrow> add_hookspecs_loop d s attrs names = Some (s', r) \<Longrightarrow>
   registry_valid (X \<union> exempt_after s' r) s'"
proof (induction attrs arbitrary: s names)
  case Nil
  then show ?case by (auto simp: exempt_after_def)
next
  case (Cons a attrs)
  obtain name meth where a: "a = (name, meth)" by (cases a)
  show ?case
  proof (cases "attr_isroutine meth \<and> attr_spec meth \<noteq> None")
    case False
    then show ?thesis using Cons a by (auto split: option.splits)
  next
    case True
    then obtain opts where opts: "attr_spec meth = Some opts" by auto
    with Cons.prems(3) a True obtain s1 r1 where
      h: "add_hookspec d s name meth opts = Some (s1, r1)"
      by (cases "add_hookspec d s name meth opts") auto
    show ?thesis
    proof (cases r1)
      case (Inl e)
      then have "s' = s1" "r = Inl e" using Cons.prems(3) a True opts h by auto
      then show ?thesis
        using add_hookspec_valid[OF Cons.prems(1,2) h] Inl by (simp add: exempt_after_def)
    next
      case (Inr u)
      then have v1: "registry_valid X s1"
        using add_hookspec_valid[OF Cons.prems(1,2) h] by (simp add: exempt_after_def)
      show ?thesis
        using Cons.prems(3) a True opts h Inr Cons.IH[OF Cons.prems(1) v1]
        by auto
    qed
  qed
qed

lemma add_hookspecs_valid:
  assumes "keeps_valid X d" "registry_valid X s" "add_hookspecs d s obj = Some (s', r)"
  shows "registry_valid (X \<union> exempt_after s' r) s'"
proof -
  from assms(3) obtain s1 r1 where l: "add_hookspecs_loop d s (obj_dir obj) [] = Some (s1, r1)"
    by (cases "add_hookspecs_loop d s (obj_dir obj) []") (auto simp: add_hookspecs_def)
  from add_hookspecs_loop_valid[OF assms(1,2) l]
  have v: "registry_valid (X \<union> exempt_after s1 r1) s1" .
  show ?thesis
  proof (cases r1)
    case (Inl e)
    then show ?thesis using assms(3) l v by (auto simp: add_hookspecs_def exempt_after_def)
  next
    case (Inr names)
    then show ?thesis using assms(3) l v
      by (auto simp: add_hookspecs_def exempt_after_def split: if_splits)
  qed
qed

lemma reachable_exempt_registry_valid: "reachable_exempt s X \<Longrightarrow> registry_valid X s"
proof (induction rule: reachable_exempt.induct)
  case (exempt_init entry_point prefix)
  then show ?case by (simp add: registry_valid_def init_manager_def)
next
  case (exempt_register s X n env namespace name s' r)
  then show ?case using register_valid[OF keeps_valid_relay_discover] by blast
next
  case (exempt_add_hookspecs s X n env obj s' r)
  then show ?case using add_hookspecs_valid[OF keeps_valid_relay_discover] by blast
next
  case (exempt_unregister s X name_or_object)
  then show ?case by (simp add: unregister_valid)
next
  case (exempt_set_blocked s X plugin_name blk)
  then show ?case by (simp add: set_blocked_valid)
next
  case (exempt_discover s X n env entry_point prefix ignore_errors s' r)
  then show ?case using discover_valid[OF keeps_valid_relay_discover] by blast
qed

lemma reachable_exempt_exists: "reachable s \<Longrightarrow> \<exists>X. reachable_exempt s X"
proof (induction rule: reachable.induct)
  case (reach_init entry_point prefix)
  show ?case by (blast intro: exempt_init)
next
  case (reach_register s n env namespace name s' r)
  then show ?case by (blast intro: exempt_register)
next
  case (reach_add_hookspecs s n env obj s' r)
  then show ?case by (blast intro: exempt_add_hookspecs)
next
  case (reach_unregister s name_or_object)
  then show ?case by (blast intro: exempt_unregister)
next
  case (reach_set_blocked s plugin_name blk)
  then show ?case by (blast intro: exempt_set_blocked)
qed

section \<open>Registration keeps the callers\<close>

lemma caller_kept_refl [simp]: "caller_kept name s s"
  by (simp add: caller_kept_def split: option.splits)

lemma callers_kept_refl [simp]: "callers_kept s s"
  by (simp add: callers_kept_def)

lemma caller_kept_trans: "caller_kept name s s1 \<Longrightarrow> caller_kept name s1 s2 \<Longrightarrow> caller_kept name s s2"
  by (auto simp: caller_kept_def split: option.splits)

lemma callers_kept_trans: "callers_kept s s1 \<Longrightarrow> callers_kept s1 s2 \<Longrightarrow> callers_kept s s2"
  by (auto simp: callers_kept_def intro: caller_kept_trans)

lemma caller_kept_same_hook: "hook s' = hook s \<Longrightarrow> caller_kept name s s'"
  by (simp add: caller_kept_def split: option.splits)

lemma callers_kept_same_hook: "hook s' = hook s \<Longrightarrow> callers_kept s s'"
  by (simp add: callers_kept_def caller_kept_same_hook)

lemma map_of_set_hook: "map_of (hook (set_hook s name hc)) = (map_of (hook s))(name \<mapsto> hc)"
  by (simp add: set_hook_def update_conv')

lemma caller_kept_set_hook_other: "n \<noteq> name \<Longrightarrow> caller_kept n s (set_hook s name hc)"
  by (simp add: caller_kept_def map_of_set_hook split: option.splits)

lemma callers_kept_set_hook:
  assumes "\<And>hc0. map_of (hook s) name = Some hc0 \<Longrightarrow>
     hc_spec hc = hc_spec hc0 \<and> hc_name hc = hc_name hc0 \<and> hc_call_history hc = hc_call_history hc0
     \<and> set (hc_hookimpls hc0) \<subseteq> set (hc_hookimpls hc)"
  shows "callers_kept s (set_hook s name hc)"
  unfolding callers_kept_def
proof
  fix n
  show "caller_kept n s (set_hook s name hc)"
  proof (cases "n = name")
    case True
    then show ?thesis using assms by (auto simp: caller_kept_def map_of_set_hook split: option.splits)
  next
    case False
    then show ?thesis by (rule caller_kept_set_hook_other)
  qed
qed


lemma verify_hook_tables:
  "verify_hook s hc h = (s', r) \<Longrightarrow>
   plugins s' = plugins s \<and> plugin2hookcallers s' = plugin2hookcallers s \<and> blocked s' = blocked s"
  by (drule verify_hook_frame, erule ssubst) simp

lemma maybe_apply_history_tables:
  "maybe_apply_history s hc h = (s', r) \<Longrightarrow>
   plugins s' = plugins s \<and> plugin2hookcallers s' = plugin2hookcallers s \<and> blocked s' = blocked s"
  by (drule maybe_apply_history_frame, erule ssubst) simp

lemma tables_set_hook [simp]:
  "plugins (set_hook s n hc) = plugins s"
  "plugin2hookcallers (set_hook s n hc) = plugin2hookcallers s"
  "blocked (set_hook s n hc) = blocked s"
  by (simp_all add: set_hook_def)

text \<open>What attaching one implementation does, case by case.\<close>

lemma attach_hookimpl_cases:
  assumes "attach_hookimpl s h found = (s', r)"
  obtains
    (attached) hc s3 where "hook s3 = hook s" "plugins s3 = plugins s"
      "plugin2hookcallers s3 = plugin2hookcallers s" "blocked s3 = blocked s"
      "hc = (case found of Caller c \<Rightarrow> c | _ \<Rightarrow> new_hook_caller (impl_specname h))"
      "s' = set_hook s3 (impl_specname h) (add_hookimpl hc h)" "r = Inr (impl_specname h)"
      "found \<noteq> Other"
  | (raised) e where "hook s' = hook s" "plugins s' = plugins s"
      "plugin2hookcallers s' = plugin2hookcallers s" "blocked s' = blocked s" "r = Inl e"
proof (cases found)
  case Absent
  then show ?thesis using assms attached[of s "new_hook_caller (impl_specname h)"]
    by (simp add: attach_hookimpl_def Let_def)
next
  case Other
  then show ?thesis using assms raised[of AttributeError]
    by (simp add: attach_hookimpl_def Let_def)
next
  case (Caller c)
  show ?thesis
  proof (cases "has_spec c")
    case False
    then show ?thesis using assms Caller attached[of s c] by (simp add: attach_hookimpl_def Let_def)
  next
    case True
    obtain s2 r2 where vh: "verify_hook s c h = (s2, r2)" by fastforce
    note f2 = verify_hook_hook[OF vh] verify_hook_tables[OF vh]
    show ?thesis
    proof (cases r2)
      case (Inl e)
      then show ?thesis using assms Caller True vh f2 raised[of e]
        by (simp add: attach_hookimpl_def Let_def)
    next
      case r2: (Inr u)
      obtain s3 r3 where mh: "maybe_apply_history s2 c h = (s3, r3)" by fastforce
      note f3 = maybe_apply_history_hook[OF mh] maybe_apply_history_tables[OF mh]
      show ?thesis
      proof (cases r3)
        case (Inl e)
        then show ?thesis using assms Caller True vh r2 mh f2 f3 raised[of e]
          by (simp add: attach_hookimpl_def Let_def)
      next
        case (Inr v)
        then show ?thesis using assms Caller True vh r2 mh f2 f3 attached[of s3 c]
          by (simp add: attach_hookimpl_def Let_def)
      qed
    qed
  qed
qed

lemma attach_hookimpl_tables:
  "attach_hookimpl s h found = (s', r) \<Longrightarrow>
   plugins s' = plugins s \<and> plugin2hookcallers s' = plugin2hookcallers s \<and> blocked s' = blocked s"
  by (erule attach_hookimpl_cases) simp_all

lemma attach_hookimpl_kept:
  assumes a: "attach_hookimpl s h (relay_lookup s (impl_specname h)) = (s', r)"
  shows "callers_kept s s'"
  using a
proof (cases rule: attach_hookimpl_cases)
  case (attached hc s3)
  have k3: "callers_kept s s3" using attached(1) by (rule callers_kept_same_hook)
  have same: "hc0 = hc" if "map_of (hook s3) (impl_specname h) = Some hc0" for hc0
    using that attached(1,5,8)
    by (cases "relay_lookup s (impl_specname h)")
       (auto dest: relay_lookup_CallerD relay_lookup_AbsentD)
  have "callers_kept s3 (set_hook s3 (impl_specname h) (add_hookimpl hc h))"
    by (rule callers_kept_set_hook) (auto simp: add_hookimpl_def dest: same)
  with k3 show ?thesis unfolding attached(6) by (rule callers_kept_trans)
next
  case (raised e)
  then show ?thesis by (simp add: callers_kept_same_hook)
qed


lemma relay_getattr_kept:
  "keeps_callers d \<Longrightarrow> relay_getattr d s name = Some (s1, g) \<Longrightarrow>
   callers_kept s s1 \<and> (\<forall>found. g = Inr found \<longrightarrow> found = relay_lookup s1 name)"
  by (auto simp: relay_getattr_def relay_trigger_def keeps_callers_def
        split: if_splits option.splits sum.splits prod.splits)

lemma register_hookimpl_kept:
  assumes d: "keeps_callers d" and r: "register_hookimpl d pn s h = Some (s', r)"
  shows "callers_kept s s'"
proof -
  from r obtain s1 g where g: "relay_getattr d s (impl_specname h) = Some (s1, g)"
    by (cases "relay_getattr d s (impl_specname h)") (auto simp: register_hookimpl_def Let_def)
  from relay_getattr_kept[OF d g] have k1: "callers_kept s s1"
    and f: "\<And>found. g = Inr found \<Longrightarrow> found = relay_lookup s1 (impl_specname h)" by auto
  show ?thesis
  proof (cases g)
    case (Inl e)
    then show ?thesis using r g k1 by (simp add: register_hookimpl_def Let_def)
  next
    case (Inr found)
    with r g f have "attach_hookimpl s1 (h\<lparr>impl_plugin_name := Some pn\<rparr>)
        (relay_lookup s1 (impl_specname (h\<lparr>impl_plugin_name := Some pn\<rparr>))) = (s', r)"
      by (simp add: register_hookimpl_def Let_def)
    from callers_kept_trans[OF k1 attach_hookimpl_kept[OF this]] show ?thesis .
  qed
qed

lemma register_impls_kept:
  "keeps_callers d \<Longrightarrow> register_impls d pn s hs acc = Some (s', r) \<Longrightarrow> callers_kept s s'"
proof (induction hs arbitrary: s acc)
  case Nil
  then show ?case by simp
next
  case (Cons h hs)
  from Cons.prems(2) obtain s1 r1 where h: "register_hookimpl d pn s h = Some (s1, r1)"
    by (cases "register_hookimpl d pn s h") auto
  note k1 = register_hookimpl_kept[OF Cons.prems(1) h]
  show ?case
  proof (cases r1)
    case (Inl e)
    then show ?thesis using Cons.prems(2) h k1 by simp
  next
    case (Inr n)
    then have "register_impls d pn s1 hs (acc @ [n]) = Some (s', r)" using Cons.prems(2) h by simp
    from callers_kept_trans[OF k1 Cons.IH[OF Cons.prems(1) this]] show ?thesis .
  qed
qed

lemma register_object_kept:
  assumes "keeps_callers d" "register_object d s obj name = Some (s', r)"
  shows "callers_kept s s'"
proof (cases "is_blocked s (plugin_name_of obj name) \<or> is_registered_name s (plugin_name_of obj name)
    \<or> \<not> obj_hashable obj \<or> is_registered_object s (obj_id obj)")
  case True
  then show ?thesis using assms by (auto simp: register_object_def Let_def split: if_splits)
next
  case False
  with assms(2) obtain s1 r1 where
    l: "register_impls d (plugin_name_of obj name) s (iter_implementations obj) [] = Some (s1, r1)"
    by (cases "register_impls d (plugin_name_of obj name) s (iter_implementations obj) []")
       (auto simp: register_object_def Let_def)
  note k = register_impls_kept[OF assms(1) l]
  have "callers_kept s1 s'"
    using assms(2) False l by (cases r1) (auto simp: register_object_def Let_def intro: callers_kept_same_hook)
  with k show ?thesis by (rule callers_kept_trans)
qed

lemma register_kept:
  assumes "keeps_callers d" "register d s ns name = Some (s', r)"
  shows "callers_kept s s'"
proof (cases ns)
  case (StrNS x)
  then show ?thesis using assms by (simp add: register_def)
next
  case (DictNS i dct)
  then show ?thesis using assms
    by (simp add: register_def register_dict_def ensure_namespace_dict split: if_splits)
       (erule register_object_kept[OF assms(1)])
next
  case (ObjNS obj)
  then show ?thesis using assms by (simp add: register_def) (erule register_object_kept[OF assms(1)])
qed

section \<open>Discovery keeps the callers\<close>

lemma keeps_callers_no_discovery [simp]: "keeps_callers no_discovery"
  by (simp add: keeps_callers_def no_discovery_def)

lemma register_hookimpl_settled_tables:
  assumes "\<not> needs_discovery s" "register_hookimpl d pn s h = Some (s', r)"
  shows "plugins s' = plugins s \<and> plugin2hookcallers s' = plugin2hookcallers s
     \<and> blocked s' = blocked s \<and> \<not> needs_discovery s'"
  using assms attach_hookimpl_tables[of s "h\<lparr>impl_plugin_name := Some pn\<rparr>" "relay_lookup s (impl_specname h)" s' r]
    attach_hookimpl_nd[of s "h\<lparr>impl_plugin_name := Some pn\<rparr>" "relay_lookup s (impl_specname h)" s' r]
  by (simp add: register_hookimpl_settled)

lemma register_impls_settled_tables:
  "\<not> needs_discovery s \<Longrightarrow> register_impls d pn s hs acc = Some (s', r) \<Longrightarrow>
   plugins s' = plugins s \<and> plugin2hookcallers s' = plugin2hookcallers s
     \<and> blocked s' = blocked s \<and> \<not> needs_discovery s'"
proof (induction hs arbitrary: s acc)
  case Nil
  then show ?case by simp
next
  case (Cons h hs)
  from Cons.prems(2) obtain s1 r1 where h: "register_hookimpl d pn s h = Some (s1, r1)"
    by (cases "register_hookimpl d pn s h") auto
  note t1 = register_hookimpl_settled_tables[OF Cons.prems(1) h]
  show ?case
  proof (cases r1)
    case (Inl e)
    then show ?thesis using Cons.prems(2) h t1 by simp
  next
    case (Inr n)
    then have "register_impls d pn s1 hs (acc @ [n]) = Some (s', r)" using Cons.prems(2) h by simp
    from Cons.IH[OF _ this] t1 show ?thesis by simp
  qed
qed

lemma register_object_failed_tables:
  assumes "\<not> needs_discovery s" "register_object d s obj name = Some (s', Inl e)"
  shows "plugins s' = plugins s \<and> plugin2hookcallers s' = plugin2hookcallers s \<and> blocked s' = blocked s"
proof (cases "is_blocked s (plugin_name_of obj name) \<or> is_registered_name s (plugin_name_of obj name)
    \<or> \<not> obj_hashable obj \<or> is_registered_object s (obj_id obj)")
  case True
  then show ?thesis using assms by (auto simp: register_object_def Let_def split: if_splits)
next
  case False
  with assms(2) obtain s1 r1 where
    l: "register_impls d (plugin_name_of obj name) s (iter_implementations obj) [] = Some (s1, r1)"
    by (cases "register_impls d (plugin_name_of obj name) s (iter_implementations obj) []")
       (auto simp: register_object_def Let_def)
  note t = register_impls_settled_tables[OF assms(1) l]
  show ?thesis using assms(2) False l t by (cases r1) (auto simp: register_object_def Let_def)
qed

lemma register_failed_tables:
  assumes "\<not> needs_discovery s" "register d s ns name = Some (s', Inl e)"
  shows "plugins s' = plugins s \<and> plugin2hookcallers s' = plugin2hookcallers s \<and> blocked s' = blocked s"
proof (cases ns)
  case (StrNS x)
  then show ?thesis using assms by (simp add: register_def)
next
  case (DictNS i dct)
  then show ?thesis using assms
    by (simp add: register_def register_dict_def ensure_namespace_dict split: if_splits)
       (erule register_object_failed_tables[OF assms(1)])
next
  case (ObjNS obj)
  then show ?thesis using assms
    by (simp add: register_def) (erule register_object_failed_tables[OF assms(1)])
qed

lemma register_settled_kept:
  assumes "\<not> needs_discovery s" "register d s ns name = Some (s', r)"
  shows "callers_kept s s' \<and> \<not> needs_discovery s'"
proof -
  from quiet_transfer[OF quiet_register[OF assms(1)] assms(2), of no_discovery]
  have "register no_discovery s ns name = Some (s', r)" and "\<not> needs_discovery s'" by simp_all
  then show ?thesis using register_kept[of no_discovery s ns name s' r] by simp
qed

lemma load_and_register_settled:
  assumes nd: "\<not> needs_discovery s" and l: "load_and_register d s loaded pn = Some (s', r)"
  shows "callers_kept s s' \<and> \<not> needs_discovery s' \<and> (\<forall>e. r = Inl e \<longrightarrow> plugins s' = plugins s)"
proof (cases "\<exists>m. loaded = Inr m \<and> is_registered s m = Inr False \<and> isclass_or_ismodule m")
  case True
  then obtain m where m: "loaded = Inr m" "is_registered s m = Inr False" "isclass_or_ismodule m" by blast
  with l obtain s1 r1 where reg: "register d s m pn = Some (s1, r1)" and s': "s' = s1"
    and rr: "(\<exists>e. r = Inl e) \<longleftrightarrow> (\<exists>e. r1 = Inl e)"
    by (cases "register d s m pn") (auto simp: load_and_register_def split: sum.splits if_splits)
  from register_settled_kept[OF nd reg] register_failed_tables[OF nd, of d m pn s1] reg s' rr
  show ?thesis by auto
next
  case False
  then have "s' = s"
    using l
    by (cases loaded; cases "is_registered s (projr loaded)")
       (auto simp: load_and_register_def split: bool.splits if_splits)
  then show ?thesis using nd by simp
qed

lemma set_blocked_unregistered:
  "\<not> is_registered_name s name \<Longrightarrow> set_blocked s name True = s\<lparr>blocked := insert name (blocked s)\<rparr>"
  by (simp add: set_blocked_def Let_def is_registered_name_def)

lemma load_entrypoints_loop_kept:
  "\<not> needs_discovery s \<Longrightarrow> load_entrypoints_loop d s g n ign eps c errs = Some (s', r) \<Longrightarrow>
   callers_kept s s'"
proof (induction eps arbitrary: s c errs)
  case Nil
  then show ?case by simp
next
  case (Cons ep eps)
  show ?case
  proof (cases "ep_group ep \<noteq> g \<or> (n \<noteq> [] \<and> ep_name ep \<noteq> n)
         \<or> is_registered_name s (ep_name ep) \<or> is_blocked s (ep_name ep)")
    case True
    then show ?thesis using Cons by simp
  next
    case False
    with Cons.prems(2) obtain s1 r1 where
      l: "load_and_register d s (ep_load ep) (Some (ep_name ep)) = Some (s1, r1)"
      by (cases "load_and_register d s (ep_load ep) (Some (ep_name ep))") auto
    from load_and_register_settled[OF Cons.prems(1) l]
    have k1: "callers_kept s s1" and nd1: "\<not> needs_discovery s1"
      and pl: "\<And>e. r1 = Inl e \<Longrightarrow> plugins s1 = plugins s" by auto
    show ?thesis
    proof (cases r1)
      case (Inr x)
      then have "load_entrypoints_loop d s1 g n ign eps (if truthy x then c + 1 else c) errs = Some (s', r)"
        using Cons.prems(2) False l by (auto split: if_splits)
      from callers_kept_trans[OF k1 Cons.IH[OF nd1 this]] show ?thesis .
    next
      case (Inl e)
      let ?s2 = "set_blocked s1 (ep_name ep) True"
      have "\<not> is_registered_name s1 (ep_name ep)"
        using False pl[OF Inl] by (simp add: is_registered_name_def)
      then have s2: "?s2 = s1\<lparr>blocked := insert (ep_name ep) (blocked s1)\<rparr>"
        by (rule set_blocked_unregistered)
      have "callers_kept s1 ?s2" by (simp add: s2 callers_kept_same_hook)
      with k1 have k2: "callers_kept s ?s2" by (rule callers_kept_trans)
      have nd2: "\<not> needs_discovery ?s2" using nd1 by simp
      show ?thesis
      proof (cases "is_plugin_error e \<and> ign")
        case True
        then have "load_entrypoints_loop d ?s2 g n ign eps c (errs @ [e]) = Some (s', r)"
          using Cons.prems(2) False l Inl by (auto simp: Let_def split: if_splits)
        from callers_kept_trans[OF k2 Cons.IH[OF nd2 this]] show ?thesis .
      next
        case stop: False
        then have "s' = ?s2 \<or> s' = s1"
          using Cons.prems(2) False l Inl by (auto simp: Let_def split: if_splits)
        then show ?thesis using k1 k2 by auto
      qed
    qed
  qed
qed

lemma load_modules_loop_kept:
  "\<not> needs_discovery s \<Longrightarrow> load_modules_loop d s p ign ms c errs = Some (s', r) \<Longrightarrow>
   callers_kept s s'"
proof (induction ms arbitrary: s c errs)
  case Nil
  then show ?case by simp
next
  case (Cons m ms)
  show ?case
  proof (cases "take (length p) (mod_name m) \<noteq> p
         \<or> is_registered_name s (display_name m) \<or> is_blocked s (display_name m)")
    case True
    then show ?thesis using Cons by (auto split: if_splits)
  next
    case False
    with Cons.prems(2) obtain s1 r1 where
      l: "load_and_register d s (mod_import m) (Some (display_name m)) = Some (s1, r1)"
      by (cases "load_and_register d s (mod_import m) (Some (display_name m))") auto
    from load_and_register_settled[OF Cons.prems(1) l]
    have k1: "callers_kept s s1" and nd1: "\<not> needs_discovery s1"
      and pl: "\<And>e. r1 = Inl e \<Longrightarrow> plugins s1 = plugins s" by auto
    show ?thesis
    proof (cases r1)
      case (Inr x)
      then have "load_modules_loop d s1 p ign ms (if truthy x then c + 1 else c) errs = Some (s', r)"
        using Cons.prems(2) False l by (auto split: if_splits)
      from callers_kept_trans[OF k1 Cons.IH[OF nd1 this]] show ?thesis .
    next
      case (Inl e)
      let ?s2 = "set_blocked s1 (display_name m) True"
      have "\<not> is_registered_name s1 (display_name m)"
        using False pl[OF Inl] by (simp add: is_registered_name_def)
      then have s2: "?s2 = s1\<lparr>blocked := insert (display_name m) (blocked s1)\<rparr>"
        by (rule set_blocked_unregistered)
      have "callers_kept s1 ?s2" by (simp add: s2 callers_kept_same_hook)
      with k1 have k2: "callers_kept s ?s2" by (rule callers_kept_trans)
      have nd2: "\<not> needs_discovery ?s2" using nd1 by simp
      show ?thesis
      proof (cases "is_plugin_error e \<and> ign")
        case True
        then have "load_modules_loop d ?s2 p ign ms c (errs @ [e]) = Some (s', r)"
          using Cons.prems(2) False l Inl by (auto simp: Let_def split: if_splits)
        from callers_kept_trans[OF k2 Cons.IH[OF nd2 this]] show ?thesis .
      next
        case stop: False
        then have "s' = ?s2 \<or> s' = s1"
          using Cons.prems(2) False l Inl by (auto simp: Let_def split: if_splits)
        then show ?thesis using k1 k2 by auto
      qed
    qed
  qed
qed

lemma discover_kept:
  assumes "discover d env s ep pf ign = Some (s', r)"
  shows "callers_kept s s'"
proof (cases "env_disable_all env")
  case True
  then show ?thesis using assms by (auto simp: discover_def Let_def intro: callers_kept_same_hook)
next
  case False
  let ?s0 = "s\<lparr>needs_discovery := False\<rparr>"
  let ?ep = "case ep of None \<Rightarrow> discover_entry_point s | Some e \<Rightarrow> if e = [] then discover_entry_point s else e"
  let ?pf = "case pf of None \<Rightarrow> discover_prefix s | Some p \<Rightarrow> if p = [] then discover_prefix s else p"
  have k0: "callers_kept s ?s0" by (simp add: callers_kept_same_hook)
  have nd0: "\<not> needs_discovery ?s0" by simp
  from assms False obtain s1 r1 where
    l1: "load_entrypoints d env ?s0 ?ep [] ign = Some (s1, r1)"
    by (cases "load_entrypoints d env ?s0 ?ep [] ign") (auto simp: discover_def Let_def)
  from quiet_transfer[OF quiet_load_entrypoints[OF nd0] l1] have nd1: "\<not> needs_discovery s1" by simp
  have k1: "callers_kept ?s0 s1"
    using l1 load_entrypoints_loop_kept[OF nd0]
    by (auto simp: load_entrypoints_def split: if_splits)
  show ?thesis
  proof (cases r1)
    case (Inl e)
    then show ?thesis using assms False l1 k1 k0 by (auto simp: discover_def Let_def intro: callers_kept_trans)
  next
    case (Inr x)
    with assms False l1 obtain s2 r2 where
      l2: "load_modules_by_prefix d env s1 ?pf ign = Some (s2, r2)" and s': "s' = s2"
      by (cases "load_modules_by_prefix d env s1 ?pf ign")
         (auto simp: discover_def Let_def split: prod.splits sum.splits)
    have "callers_kept s1 s2"
      using l2 load_modules_loop_kept[OF nd1]
      by (auto simp: load_modules_by_prefix_def split: if_splits)
    then show ?thesis using s' k0 k1 by (auto intro: callers_kept_trans)
  qed
qed

lemma keeps_callers_relay_discover: "keeps_callers (relay_discover n env)"
  unfolding keeps_callers_def
proof (intro allI impI)
  fix s s' r
  assume a: "relay_discover n env s = Some (s', r)"
  then obtain k where n: "n = Suc k" by (cases n) auto
  with a obtain r0 where "discover (relay_discover k env) env s None None True = Some (s', r0)"
    by (cases "discover (relay_discover k env) env s None None True") (auto split: sum.splits)
  then show "callers_kept s s'" by (rule discover_kept)
qed

text \<open>With room for one pass, a read of the relay returns the relay's entry.\<close>

lemma relay_getattr_discover:
  assumes "name \<notin> {''_needs_discovery'', ''_manager''}"
  shows "\<exists>s1. relay_getattr (relay_discover (Suc n) env) s name = Some (s1, Inr (relay_lookup s1 name))
     \<and> \<not> needs_discovery s1 \<and> callers_kept s s1"
proof -
  from relay_trigger_returns[OF assms, of n env s] obtain s1 where
    t: "relay_trigger (relay_discover (Suc n) env) s name = Some (s1, Inr ())" and nd: "\<not> needs_discovery s1"
    by blast
  then have g: "relay_getattr (relay_discover (Suc n) env) s name = Some (s1, Inr (relay_lookup s1 name))"
    by (simp add: relay_getattr_def del: relay_discover.simps)
  from relay_getattr_kept[OF keeps_callers_relay_discover g] nd g show ?thesis by blast
qed

section \<open>Specifications refuse implementations\<close>

text \<open>What binding a specification does to the implementations a caller already holds.\<close>

lemma verify_hook_rejects:
  assumes "hc_spec hc = Some sp"
  shows "(\<exists>s' e. verify_hook s hc h = (s', Inl e)) \<longleftrightarrow> spec_rejects sp h"
  using assms
  by (auto simp: verify_hook_def Let_def spec_rejects_def impl_fits_def is_historic_def
        split: option.splits)


lemma verify_hooks_raised:
  assumes sp: "hc_spec hc = Some sp"
  shows "verify_hooks s hc hs = (s', Inl e) \<Longrightarrow>
     \<exists>h\<in>set hs. spec_rejects sp h \<and>
        (\<exists>reason. e = PluginValidationError (impl_plugin h) (impl_plugin_name h) (hc_name hc) reason)"
proof (induction hs arbitrary: s)
  case Nil
  then show ?case by simp
next
  case (Cons h hs)
  obtain s1 r1 where v: "verify_hook s hc h = (s1, r1)" by fastforce
  show ?case
  proof (cases r1)
    case (Inl e1)
    then have "e1 = e" using Cons.prems v by simp
    moreover have "spec_rejects sp h" using verify_hook_rejects[OF sp, of s h] v Inl by auto
    ultimately show ?thesis using verify_hook_error_names[of s hc h s1 e1] v Inl by auto
  next
    case (Inr u)
    then have "verify_hooks s1 hc hs = (s', Inl e)" using Cons.prems v by simp
    from Cons.IH[OF this] show ?thesis by auto
  qed
qed



text \<open>A binding that raises a validation failure leaves the specification bound.\<close>

lemma bind_hookspec_raised:
  assumes b: "bind_hookspec s1 name meth opts found = (s', Inl e)" and v: "is_validation_error e"
  shows "\<exists>hc h reason. (name, hc) \<in> set (hook s') \<and> map_of (hook s') name = Some hc
     \<and> hc_spec hc = Some (HookSpecification meth opts) \<and> h \<in> set (hc_hookimpls hc)
     \<and> spec_rejects (HookSpecification meth opts) h
     \<and> e = PluginValidationError (impl_plugin h) (impl_plugin_name h) (hc_name hc) reason"
proof (cases found)
  case Absent
  then show ?thesis using b by (simp add: bind_hookspec_def)
next
  case Other
  then show ?thesis using b v by (auto simp: bind_hookspec_def)
next
  case (Caller hc0)
  show ?thesis
  proof (cases "has_spec hc0")
    case True
    then show ?thesis using b v Caller by (auto simp: bind_hookspec_def set_specification_def)
  next
    case False
    let ?hc = "hc0\<lparr>hc_spec := Some (HookSpecification meth opts)\<rparr>"
    from b Caller False have vh: "verify_hooks (set_hook s1 name ?hc) ?hc (get_hookimpls ?hc) = (s', Inl e)"
      by (simp add: bind_hookspec_def set_specification_def)
    have hk: "hook s' = AList.update name ?hc (hook s1)"
      using verify_hooks_hook[OF vh] by (simp add: set_hook_def)
    have sp: "hc_spec ?hc = Some (HookSpecification meth opts)" by simp
    from verify_hooks_raised[OF sp vh] obtain h reason where
      "h \<in> set (hc_hookimpls ?hc)" "spec_rejects (HookSpecification meth opts) h"
      "e = PluginValidationError (impl_plugin h) (impl_plugin_name h) (hc_name ?hc) reason"
      by (auto simp: get_hookimpls_def)
    moreover have "(name, ?hc) \<in> set (hook s')" by (simp add: hk mem_update)
    moreover have "map_of (hook s') name = Some ?hc" by (simp add: hk update_conv')
    ultimately show ?thesis using sp by blast
  qed
qed

text \<open>What a read of the relay keeps, with room for one discovery pass.\<close>

lemma relay_discover_result:
  assumes "relay_discover n env s = Some (s', r)"
  shows "r = Inr ()"
proof (cases n)
  case 0
  then show ?thesis using assms by simp
next
  case (Suc k)
  with assms show ?thesis
    by (cases "discover (relay_discover k env) env s None None True")
       (auto split: sum.splits dest: discover_ignoring)
qed

lemma relay_getattr_result:
  "relay_getattr (relay_discover n env) s name = Some (s1, g) \<Longrightarrow>
   g = Inr (relay_lookup s1 name) \<and> callers_kept s s1"
  using relay_getattr_kept[OF keeps_callers_relay_discover, of n env s name s1 g]
  by (auto simp: relay_getattr_def relay_trigger_def split: if_splits option.splits sum.splits
        dest: relay_discover_result)












lemma add_hookspecs_loop_names:
  "add_hookspecs_loop d s attrs names = Some (s', Inr names') \<Longrightarrow> \<exists>more. names' = names @ more"
proof (induction attrs arbitrary: s names)
  case Nil
  then show ?case by simp
next
  case (Cons a attrs)
  obtain n' m' where a: "a = (n', m')" by (cases a)
  show ?case
    using Cons.prems a
    by (auto split: if_splits option.splits sum.splits dest!: Cons.IH)
qed




text \<open>A call that raises a validation failure leaves the specification bound.\<close>

lemma add_hookspecs_loop_raised:
  "add_hookspecs_loop (relay_discover n env) s attrs names = Some (s', Inl e) \<Longrightarrow>
   is_validation_error e \<Longrightarrow>
   \<exists>name hc sp h reason. (name, hc) \<in> set (hook s') \<and> hc_spec hc = Some sp \<and> h \<in> set (hc_hookimpls hc)
     \<and> spec_rejects sp h
     \<and> e = PluginValidationError (impl_plugin h) (impl_plugin_name h) (hc_name hc) reason"
proof (induction attrs arbitrary: s names)
  case Nil
  then show ?case by simp
next
  case (Cons a attrs)
  obtain n' m' where a: "a = (n', m')" by (cases a)
  show ?case
  proof (cases "attr_isroutine m' \<and> attr_spec m' \<noteq> None")
    case False
    then have "add_hookspecs_loop (relay_discover n env) s attrs names = Some (s', Inl e)"
      using Cons.prems(1) a by (auto split: option.splits)
    from Cons.IH[OF this Cons.prems(2)] show ?thesis .
  next
    case True
    then obtain o' where o': "attr_spec m' = Some o'" by auto
    with Cons.prems(1) a True obtain s1 r1 where
      h1: "add_hookspec (relay_discover n env) s n' m' o' = Some (s1, r1)"
      by (cases "add_hookspec (relay_discover n env) s n' m' o'") auto
    show ?thesis
    proof (cases r1)
      case (Inr u)
      then have "add_hookspecs_loop (relay_discover n env) s1 attrs (names @ [n']) = Some (s', Inl e)"
        using Cons.prems(1) a True o' h1 by auto
      from Cons.IH[OF this Cons.prems(2)] show ?thesis .
    next
      case (Inl e1)
      then have eq: "s' = s1" "e1 = e" using Cons.prems(1) a True o' h1 by auto
      from h1 obtain s0 g where g: "relay_getattr (relay_discover n env) s n' = Some (s0, g)"
        by (cases "relay_getattr (relay_discover n env) s n'") (auto simp: add_hookspec_def)
      from relay_getattr_result[OF g] have "g = Inr (relay_lookup s0 n')" by simp
      with h1 g Inl eq have "bind_hookspec s0 n' m' o' (relay_lookup s0 n') = (s', Inl e)"
        by (simp add: add_hookspec_def)
      from bind_hookspec_raised[OF this Cons.prems(2)] show ?thesis by blast
    qed
  qed
qed

lemma add_hookspecs_raised:
  assumes "add_hookspecs (relay_discover n env) s ns = Some (s', Inl e)" "is_validation_error e"
  shows "\<exists>name hc sp h reason. (name, hc) \<in> set (hook s') \<and> hc_spec hc = Some sp
     \<and> h \<in> set (hc_hookimpls hc) \<and> spec_rejects sp h
     \<and> e = PluginValidationError (impl_plugin h) (impl_plugin_name h) (hc_name hc) reason"
proof -
  from assms have "add_hookspecs_loop (relay_discover n env) s (obj_dir ns) [] = Some (s', Inl e)"
    by (cases "add_hookspecs_loop (relay_discover n env) s (obj_dir ns) []")
       (auto simp: add_hookspecs_def split: sum.splits if_splits)
  from add_hookspecs_loop_raised[OF this assms(2)] show ?thesis .
qed

section \<open>The validation invariant in reachable managers\<close>

lemmas ex4_defs = Hooks_def hooks_spec_def PluginMismatch_def mismatch_impl_def plugin1_impl_def
  unbound_caller_def bound_caller_def registered_unbound_def registered_then_bound_def

lemma plugin1_register:
  "register (relay_discover (Suc 0) env_none) (init_manager [] []) (ObjNS Plugin1) None =
     Some (registered_unbound Plugin1 plugin1_impl, Inr (Some ''Plugin1''))"
  by (simp add: ex_defs ex2_defs ex4_defs op_defs)

lemma plugin1_bind:
  "add_hookspecs (relay_discover (Suc 0) env_none) (registered_unbound Plugin1 plugin1_impl) Hooks =
     Some (registered_then_bound Plugin1 plugin1_impl, Inr ())"
  by (simp add: ex_defs ex2_defs ex4_defs op_defs)

lemma mismatch_register:
  "register (relay_discover (Suc 0) env_none) (init_manager [] []) (ObjNS PluginMismatch) None =
     Some (registered_unbound PluginMismatch mismatch_impl, Inr (Some ''hello''))"
  by (simp add: ex_defs ex2_defs ex4_defs op_defs)

lemma mismatch_bind:
  "add_hookspecs (relay_discover (Suc 0) env_none) (registered_unbound PluginMismatch mismatch_impl) Hooks =
     Some (registered_then_bound PluginMismatch mismatch_impl,
           Inl (PluginValidationError 4 (Some ''hello'') ''he_method1'' (NotInSpec {''qlwkje''})))"
  by (simp add: ex_defs ex2_defs ex4_defs op_defs)

text \<open>
  C1 (as amended). In every manager reachable from a fresh one through \<^verbatim>\<open>register\<close>,
  \<^verbatim>\<open>add_hookspecs\<close>, \<^verbatim>\<open>unregister\<close>, \<^verbatim>\<open>set_blocked\<close> and \<^verbatim>\<open>discover\<close> (whether a
  call returned or raised, and with the discovery passes the calls trigger), every
  implementation attached to a caller with a specification takes only parameters of
  that specification, unless a call of \<^verbatim>\<open>add_hookspecs\<close> that raised a validation
  failure left it unverified: it was then held by the caller that the failure names.
  Every reachable manager is covered. A caller without a specification is not checked;
  when \<^verbatim>\<open>add_hookspecs\<close> binds one, the implementations already attached are checked,
  and when that check raises, the specification stays bound and the refused
  implementation stays attached, among those left unverified.
\<close>

theorem reachable_implementations_fit:
  "(reachable_exempt s X \<and> map_of (hook s) name = Some hc \<and> hc_spec hc = Some sp
      \<and> h \<in> set (hc_hookimpls hc) \<and> h \<notin> X
    \<longrightarrow> set (impl_argnames h) \<subseteq> set (spec_argnames sp))
   \<and> (reachable s \<longrightarrow> (\<exists>X. reachable_exempt s X))
   \<and> (add_hookspecs (relay_discover n env) s0 obj = Some (s', Inl e) \<and> is_validation_error e
    \<longrightarrow> (\<exists>name' hc' sp' h' reason.
           (name', hc') \<in> set (hook s') \<and> hc_spec hc' = Some sp' \<and> h' \<in> set (hc_hookimpls hc')
           \<and> spec_rejects sp' h'
           \<and> e = PluginValidationError (impl_plugin h') (impl_plugin_name h') (hc_name hc') reason
           \<and> h' \<in> left_unverified s' e))"
proof (intro conjI impI)
  assume a: "reachable_exempt s X \<and> map_of (hook s) name = Some hc \<and> hc_spec hc = Some sp
      \<and> h \<in> set (hc_hookimpls hc) \<and> h \<notin> X"
  then have "registry_valid X s" by (blast intro: reachable_exempt_registry_valid)
  with a have "caller_valid X hc" by (blast intro: registry_valid_lookup)
  with a show "set (impl_argnames h) \<subseteq> set (spec_argnames sp)"
    by (auto simp: caller_valid_def list_all_iff impl_fits_def)
next
  assume "reachable s"
  then show "\<exists>X. reachable_exempt s X" by (rule reachable_exempt_exists)
next
  assume a: "add_hookspecs (relay_discover n env) s0 obj = Some (s', Inl e) \<and> is_validation_error e"
  then obtain name' hc' sp' h' reason where r: "(name', hc') \<in> set (hook s')"
    "hc_spec hc' = Some sp'" "h' \<in> set (hc_hookimpls hc')" "spec_rejects sp' h'"
    "e = PluginValidationError (impl_plugin h') (impl_plugin_name h') (hc_name hc') reason"
    using add_hookspecs_raised[of n env s0 obj s' e] by blast
  then have "h' \<in> left_unverified s' e" by (auto simp: left_unverified_def)
  with r show "\<exists>name' hc' sp' h' reason.
           (name', hc') \<in> set (hook s') \<and> hc_spec hc' = Some sp' \<and> h' \<in> set (hc_hookimpls hc')
           \<and> spec_rejects sp' h'
           \<and> e = PluginValidationError (impl_plugin h') (impl_plugin_name h') (hc_name hc') reason
           \<and> h' \<in> left_unverified s' e" by blast
qed

theorem reachable_implementations_fit_witness:
  "reachable_exempt (registered_then_bound Plugin1 plugin1_impl) {}
   \<and> map_of (hook (registered_then_bound Plugin1 plugin1_impl)) ''he_method1'' =
       Some (bound_caller plugin1_impl)
   \<and> hc_spec (bound_caller plugin1_impl) = Some hooks_spec
   \<and> plugin1_impl \<in> set (hc_hookimpls (bound_caller plugin1_impl))
   \<and> set (impl_argnames plugin1_impl) \<subseteq> set (spec_argnames hooks_spec)
   \<and> reachable (registered_then_bound PluginMismatch mismatch_impl)
   \<and> (\<exists>X. reachable_exempt (registered_then_bound PluginMismatch mismatch_impl) X)
   \<and> add_hookspecs (relay_discover (Suc 0) env_none) (registered_unbound PluginMismatch mismatch_impl)
        Hooks =
       Some (registered_then_bound PluginMismatch mismatch_impl,
             Inl (PluginValidationError 4 (Some ''hello'') ''he_method1'' (NotInSpec {''qlwkje''})))
   \<and> mismatch_impl \<in> left_unverified (registered_then_bound PluginMismatch mismatch_impl)
        (PluginValidationError 4 (Some ''hello'') ''he_method1'' (NotInSpec {''qlwkje''}))"
proof -
  have "reachable_exempt (registered_then_bound Plugin1 plugin1_impl)
      ({} \<union> exempt_after (registered_then_bound Plugin1 plugin1_impl) (Inr () :: error + unit))"
    by (rule exempt_add_hookspecs[OF exempt_register[OF exempt_init plugin1_register] plugin1_bind])
  then have reach: "reachable_exempt (registered_then_bound Plugin1 plugin1_impl) {}"
    by (simp add: exempt_after_def)
  have look: "map_of (hook (registered_then_bound Plugin1 plugin1_impl)) ''he_method1'' =
      Some (bound_caller plugin1_impl)"
    by (simp add: registered_then_bound_def registered_unbound_def)
  have sp: "hc_spec (bound_caller plugin1_impl) = Some hooks_spec"
    by (simp add: bound_caller_def)
  have mem: "plugin1_impl \<in> set (hc_hookimpls (bound_caller plugin1_impl))"
    by (simp add: bound_caller_def unbound_caller_def)
  have r2: "reachable (registered_then_bound PluginMismatch mismatch_impl)"
    by (rule reach_add_hookspecs[OF reach_register[OF reach_init mismatch_register] mismatch_bind])
  have lu: "mismatch_impl \<in> left_unverified (registered_then_bound PluginMismatch mismatch_impl)
        (PluginValidationError 4 (Some ''hello'') ''he_method1'' (NotInSpec {''qlwkje''}))"
    by (simp add: left_unverified_def registered_then_bound_def registered_unbound_def
          bound_caller_def unbound_caller_def)
  from reachable_implementations_fit
         [of "registered_then_bound Plugin1 plugin1_impl" "{}" "''he_method1''"
             "bound_caller plugin1_impl" hooks_spec plugin1_impl]
       reachable_implementations_fit
         [of "registered_then_bound PluginMismatch mismatch_impl" "{}" "''he_method1''"
             "bound_caller plugin1_impl" hooks_spec plugin1_impl]
       reach look sp mem r2 lu mismatch_bind
  show ?thesis by simp
qed

text \<open>
  The claim as stated fails: \<^verbatim>\<open>add_hookspecs\<close> binds the specification before it
  verifies the implementations, so when the verification raises, the manager is left
  with the specification bound and the offending implementation attached.
\<close>

theorem failed_binding_counterexample:
  "reachable (registered_then_bound PluginMismatch mismatch_impl)
   \<and> map_of (hook (registered_then_bound PluginMismatch mismatch_impl)) ''he_method1'' =
       Some (bound_caller mismatch_impl)
   \<and> hc_spec (bound_caller mismatch_impl) = Some hooks_spec
   \<and> mismatch_impl \<in> set (hc_hookimpls (bound_caller mismatch_impl))
   \<and> \<not> set (impl_argnames mismatch_impl) \<subseteq> set (spec_argnames hooks_spec)"
proof -
  have "reachable (registered_then_bound PluginMismatch mismatch_impl)"
    by (rule reach_add_hookspecs[OF reach_register[OF reach_init mismatch_register] mismatch_bind])
  then show ?thesis
    by (simp add: ex_defs ex4_defs HookImplementation_def HookSpecification_def)
qed

section \<open>Declaring a specification after registration\<close>







section \<open>Historic callers and wrappers\<close>









section \<open>A registration that fails half way\<close>








section \<open>Blocking a name\<close>

text \<open>
  C4. \<^verbatim>\<open>set_blocked\<close> is documented to unregister the name when it is registered, but
  \<^verbatim>\<open>unregister\<close> deletes from the name table the first name of the object it finds
  under the given name, \<^verbatim>\<open>get_name(plugin)\<close>, not the given name. In the manager
  \<open>both_names\<close> the class is registered as \<^verbatim>\<open>b\<close> and as \<^verbatim>\<open>a\<close>: blocking \<^verbatim>\<open>a\<close>
  deletes \<^verbatim>\<open>b\<close> and leaves \<^verbatim>\<open>a\<close> registered, and blocking \<^verbatim>\<open>a\<close> once more changes
  the manager again.
\<close>

theorem set_blocked_other_name_unregistered:
  "register (relay_discover (Suc 0) env_b) (init_manager ''grp'' []) (ObjNS Plugin1) (Some ''a'') =
     Some (both_names, Inr (Some ''a''))
   \<and> is_registered_name both_names ''a''
   \<and> is_blocked (set_blocked both_names ''a'' True) ''a''
   \<and> is_registered_name (set_blocked both_names ''a'' True) ''a''
   \<and> plugins (set_blocked both_names ''a'' True) = [(''a'', 1)]
   \<and> plugins (set_blocked (set_blocked both_names ''a'' True) ''a'' True) = []
   \<and> set_blocked (set_blocked both_names ''a'' True) ''a'' True \<noteq> set_blocked both_names ''a'' True"
proof -
  have 1: "register (relay_discover (Suc 0) env_b) (init_manager ''grp'' []) (ObjNS Plugin1) (Some ''a'') =
     Some (both_names, Inr (Some ''a''))"
    by (simp add: ex_defs ex2_defs ex4_defs op_defs both_names_def)
  have 2: "is_registered_name both_names ''a''"
    by (simp add: both_names_def is_registered_name_def)
  have 3: "is_blocked (set_blocked both_names ''a'' True) ''a''"
    by (rule is_blocked_set_blocked)
  have 4: "plugins (set_blocked both_names ''a'' True) = [(''a'', 1)]"
    by (simp add: ex_defs ex4_defs op_defs both_names_def)
  have 5: "plugin2hookcallers (set_blocked both_names ''a'' True) = []"
    by (simp add: ex_defs ex4_defs op_defs both_names_def)
  have 6: "plugins (set_blocked (set_blocked both_names ''a'' True) ''a'' True) = []"
    using 4 5 by (simp add: set_blocked_def unregister_def ensure_plugin_def get_name_def
        is_registered_name_def Let_def)
  from 4 6 have 7: "set_blocked (set_blocked both_names ''a'' True) ''a'' True
      \<noteq> set_blocked both_names ''a'' True" by auto
  from 4 have 8: "is_registered_name (set_blocked both_names ''a'' True) ''a''"
    by (simp add: is_registered_name_def)
  from 1 2 3 8 4 6 7 show ?thesis by blast
qed

end
